theory Spec2Isabelle
  imports Complex_Main
begin

section \<open>Conventions\<close>

text \<open>
  The engine is JavaScript. Its numbers are modelled as mathematical numbers: pixel
  coordinates, sizes and indices as integers or naturals, samples, weights and distances
  as reals. The rounding of double arithmetic and of stores into a Float32Array is outside
  this model, and so are NaN and the infinities; every equation below is an equation of
  exact arithmetic. A typed array is a list. A read outside a list has no specified value
  in HOL, where JavaScript yields \<open>undefined\<close>: a theorem about the value of a sample
  either assumes the buffer length that excludes such a read, or relates the same read
  on both sides. A quotient with divisor 0 is 0 in HOL, where JavaScript yields NaN or
  an infinity: a theorem about a quotient either shows that its divisor is not 0, or
  has the same quotient on both sides.
\<close>

section \<open>Positioner\<close>

record position =
  pos_x :: int
  pos_y :: int

text \<open>
  \<open>InsetEngine.prototype.calculatePosition\<close> (lib/InsetDialog.js). The preset is the
  string the source switches on; \<open>customPos\<close> is an optional object, tested for
  truthiness in the \<open>Custom\<close> case.
\<close>

definition calculatePosition ::
  "int \<Rightarrow> int \<Rightarrow> int \<Rightarrow> int \<Rightarrow> string \<Rightarrow> int \<Rightarrow> position option \<Rightarrow> position" where
  "calculatePosition imageWidth imageHeight insetWidth insetHeight preset margin customPos =
     (let pos =
        (if preset = ''Top-Left'' then \<lparr>pos_x = margin, pos_y = margin\<rparr>
         else if preset = ''Top-Right'' then
           \<lparr>pos_x = imageWidth - insetWidth - margin, pos_y = margin\<rparr>
         else if preset = ''Bottom-Left'' then
           \<lparr>pos_x = margin, pos_y = imageHeight - insetHeight - margin\<rparr>
         else if preset = ''Bottom-Right'' then
           \<lparr>pos_x = imageWidth - insetWidth - margin,
            pos_y = imageHeight - insetHeight - margin\<rparr>
         else if preset = ''Custom'' then
           \<lparr>pos_x = (case customPos of Some p \<Rightarrow> pos_x p | None \<Rightarrow> margin),
            pos_y = (case customPos of Some p \<Rightarrow> pos_y p | None \<Rightarrow> margin)\<rparr>
         else \<lparr>pos_x = margin, pos_y = margin\<rparr>)
      in \<lparr>pos_x = max 0 (min (imageWidth - insetWidth) (pos_x pos)),
          pos_y = max 0 (min (imageHeight - insetHeight) (pos_y pos))\<rparr>)"

section \<open>Host interface: rectangles and images\<close>

text \<open>
  Modelled from the spec: the \<open>Rect\<close> class of the host toolkit (integer box
  \<open>(x0, y0, x1, y1)\<close>, width and height derived, intersection yielding an empty result
  when disjoint) is not part of the repository.
\<close>

record rect =
  rect_x0 :: int
  rect_y0 :: int
  rect_x1 :: int
  rect_y1 :: int

definition Rect :: "int \<Rightarrow> int \<Rightarrow> int \<Rightarrow> int \<Rightarrow> rect" where
  "Rect a b c d = \<lparr>rect_x0 = a, rect_y0 = b, rect_x1 = c, rect_y1 = d\<rparr>"

definition rect_width :: "rect \<Rightarrow> int" where
  "rect_width r = rect_x1 r - rect_x0 r"

definition rect_height :: "rect \<Rightarrow> int" where
  "rect_height r = rect_y1 r - rect_y0 r"

definition intersection :: "rect \<Rightarrow> rect \<Rightarrow> rect" where
  "intersection a b =
     Rect (max (rect_x0 a) (rect_x0 b)) (max (rect_y0 a) (rect_y0 b))
          (min (rect_x1 a) (rect_x1 b)) (min (rect_y1 a) (rect_y1 b))"

definition isEmpty :: "rect \<Rightarrow> bool" where
  "isEmpty r = (rect_x1 r \<le> rect_x0 r \<or> rect_y1 r \<le> rect_y0 r)"

text \<open>
  The buffer a pair of nested loops \<open>for y < h: for x < w: buf[y * w + x] = f x y\<close>
  leaves in a fresh array of \<open>w * h\<close> samples.
\<close>

definition rows :: "nat \<Rightarrow> nat \<Rightarrow> (nat \<Rightarrow> nat \<Rightarrow> 'a) \<Rightarrow> 'a list" where
  "rows w h f = concat (map (\<lambda>y. map (\<lambda>x. f x y) [0..<w]) [0..<h])"

text \<open>
  Modelled from the spec: the host image (an addressable 2D multi-channel buffer with
  \<open>read samples\<close> and \<open>write samples\<close> on a rectangle and a channel index) is not part
  of the repository. Each channel is a row-major list of \<open>width * height\<close> samples;
  \<open>getSamples\<close> returns the samples of the rectangle row by row, \<open>setSamples\<close> stores
  a buffer of that layout into the rectangle and touches nothing else.
\<close>

record image =
  img_width :: nat
  img_height :: nat
  img_samples :: "real list list"

definition numberOfChannels :: "image \<Rightarrow> nat" where
  "numberOfChannels img = length (img_samples img)"

definition getSamples :: "image \<Rightarrow> rect \<Rightarrow> nat \<Rightarrow> real list" where
  "getSamples img r c =
     rows (nat (rect_width r)) (nat (rect_height r))
       (\<lambda>x y. img_samples img ! c ! ((nat (rect_y0 r) + y) * img_width img + (nat (rect_x0 r) + x)))"

definition setSamples :: "image \<Rightarrow> real list \<Rightarrow> rect \<Rightarrow> nat \<Rightarrow> image" where
  "setSamples img buf r c =
     img\<lparr>img_samples := (img_samples img)
       [c := rows (img_width img) (img_height img)
          (\<lambda>x y. if rect_x0 r \<le> int x \<and> int x < rect_x1 r \<and> rect_y0 r \<le> int y \<and> int y < rect_y1 r
                 then buf ! (nat (int y - rect_y0 r) * nat (rect_width r) + nat (int x - rect_x0 r))
                 else img_samples img ! c ! (y * img_width img + x))]\<rparr>"

text \<open>
  The invariant of a sample buffer (its length is width * height) for every channel of
  an image, and the sample of channel \<open>c\<close> at column \<open>x\<close> and row \<open>y\<close>.
\<close>

definition wf_image :: "image \<Rightarrow> bool" where
  "wf_image img =
     list_all (\<lambda>ch. length ch = img_width img * img_height img) (img_samples img)"

definition pixel :: "image \<Rightarrow> nat \<Rightarrow> nat \<Rightarrow> nat \<Rightarrow> real" where
  "pixel img c x y = img_samples img ! c ! (y * img_width img + x)"

text \<open>The calls a function makes on the host image, for the functions that log them.\<close>

datatype host_call = GetSamples rect nat | SetSamples rect nat

section \<open>Region extraction\<close>

datatype error = OutOfBounds | RegionTooSmall

record region =
  reg_pixels :: "real list list"
  reg_width :: nat
  reg_height :: nat
  reg_channels :: nat
  reg_mask :: "real list option"
  reg_isCircular :: bool

text \<open>
  \<open>InsetEngine.prototype.extractRegion\<close>. The two \<open>throw\<close> statements are the two
  errors (\<open>Selected region exceeds image bounds\<close> is \<open>OutOfBounds\<close>,
  \<open>Region must be at least 10x10 pixels\<close> is \<open>RegionTooSmall\<close>); the first component of
  the result lists the calls made on the host image, in order. The object the source returns has no \<open>mask\<close> and no \<open>isCircular\<close> property:
  \<open>None\<close> and \<open>False\<close> here.
\<close>

definition extractRegion :: "image \<Rightarrow> rect \<Rightarrow> host_call list \<times> (error + region)" where
  "extractRegion img r =
     (if rect_x0 r < 0 \<or> rect_y0 r < 0 \<or>
         rect_x1 r > int (img_width img) \<or> rect_y1 r > int (img_height img)
      then ([], Inl OutOfBounds)
      else if rect_width r < 10 \<or> rect_height r < 10 then ([], Inl RegionTooSmall)
      else
        (let channels = numberOfChannels img;
             width = nat (rect_width r);
             height = nat (rect_height r)
         in (map (\<lambda>c. GetSamples r c) [0..<channels],
             Inr \<lparr>reg_pixels = map (\<lambda>c. getSamples img r c) [0..<channels],
                  reg_width = width, reg_height = height, reg_channels = channels,
                  reg_mask = None, reg_isCircular = False\<rparr>)))"

text \<open>\<open>Math.round\<close>: the nearest integer, halves rounded up.\<close>

definition js_round :: "real \<Rightarrow> int" where
  "js_round v = \<lfloor>v + 1 / 2\<rfloor>"

record point =
  pt_x :: real
  pt_y :: real

text \<open>
  The body of the mask loops of \<open>extractCircularRegion\<close> and \<open>scalePixels\<close> (the same
  statements in both): the distance from the centre \<open>(cx, cy)\<close> of a buffer to the
  centre of its pixel \<open>(x, y)\<close>, which the mask loop of \<open>addBorder\<close> computes in the
  same way, and the coverage of the pixel.
\<close>

definition circle_dist :: "real \<Rightarrow> real \<Rightarrow> nat \<Rightarrow> nat \<Rightarrow> real" where
  "circle_dist cx cy x y =
     (let dx = real x - cx + 0.5; dy = real y - cy + 0.5 in sqrt (dx * dx + dy * dy))"

definition circle_alpha :: "real \<Rightarrow> real \<Rightarrow> real \<Rightarrow> nat \<Rightarrow> nat \<Rightarrow> real" where
  "circle_alpha radius cx cy x y =
     (let dist = circle_dist cx cy x y;
          alpha = radius + 0.5 - dist
      in if alpha < 0 then 0 else if alpha > 1 then 1 else alpha)"

definition extractCircularRegion ::
  "image \<Rightarrow> point \<Rightarrow> real \<Rightarrow> host_call list \<times> (error + region)" where
  "extractCircularRegion img center diameter =
     (let radius = diameter / 2;
          x0 = max 0 (js_round (pt_x center - radius));
          y0 = max 0 (js_round (pt_y center - radius));
          x1 = min (int (img_width img)) (js_round (pt_x center + radius));
          y1 = min (int (img_height img)) (js_round (pt_y center + radius));
          r = Rect x0 y0 x1 y1
      in case extractRegion img r of
           (calls, Inl e) \<Rightarrow> (calls, Inl e)
         | (calls, Inr data) \<Rightarrow>
             (let cx = real (reg_width data) / 2;
                  cy = real (reg_height data) / 2;
                  m = rows (reg_width data) (reg_height data) (circle_alpha radius cx cy)
              in (calls, Inr (data\<lparr>reg_mask := Some m, reg_isCircular := True\<rparr>))))"


section \<open>Resampling: ScalingUtils\<close>

text \<open>
  The resamplers write \<open>dst[y * dstW + x]\<close> for every \<open>y < dstH\<close>, \<open>x < dstW\<close> into the
  buffer the caller supplies. A store beyond the end of a typed array is ignored, and
  samples of \<open>dst\<close> from index \<open>dstW * dstH\<close> on are not written.
\<close>

definition write_rows :: "real list \<Rightarrow> nat \<Rightarrow> nat \<Rightarrow> (nat \<Rightarrow> nat \<Rightarrow> real) \<Rightarrow> real list" where
  "write_rows dst dstW dstH f = take (length dst) (rows dstW dstH f) @ drop (dstW * dstH) dst"

text \<open>The body of the pixel loops of \<open>ScalingUtils.nearestInterpolate\<close>.\<close>

definition nearest_pixel ::
  "real list \<Rightarrow> nat \<Rightarrow> nat \<Rightarrow> real \<Rightarrow> real \<Rightarrow> nat \<Rightarrow> nat \<Rightarrow> real" where
  "nearest_pixel src srcW srcH xRatio yRatio x y =
     (let srcX = min \<lfloor>real x * xRatio\<rfloor> (int srcW - 1);
          srcY = min \<lfloor>real y * yRatio\<rfloor> (int srcH - 1)
      in src ! nat (srcY * int srcW + srcX))"

definition nearestInterpolate ::
  "real list \<Rightarrow> nat \<Rightarrow> nat \<Rightarrow> real list \<Rightarrow> nat \<Rightarrow> nat \<Rightarrow> real list" where
  "nearestInterpolate src srcW srcH dst dstW dstH =
     (let xRatio = real srcW / real dstW;
          yRatio = real srcH / real dstH
      in write_rows dst dstW dstH (nearest_pixel src srcW srcH xRatio yRatio))"

text \<open>The body of the pixel loops of \<open>ScalingUtils.bilinearInterpolate\<close>.\<close>

definition bilinear_pixel ::
  "real list \<Rightarrow> nat \<Rightarrow> nat \<Rightarrow> real \<Rightarrow> real \<Rightarrow> nat \<Rightarrow> nat \<Rightarrow> real" where
  "bilinear_pixel src srcW srcH xRatio yRatio x y =
     (let srcX = real x * xRatio;
          srcY = real y * yRatio;
          x0 = \<lfloor>srcX\<rfloor>;
          y0 = \<lfloor>srcY\<rfloor>;
          x1 = min (x0 + 1) (int srcW - 1);
          y1 = min (y0 + 1) (int srcH - 1);
          xFrac = srcX - real_of_int x0;
          yFrac = srcY - real_of_int y0;
          v00 = src ! nat (y0 * int srcW + x0);
          v10 = src ! nat (y0 * int srcW + x1);
          v01 = src ! nat (y1 * int srcW + x0);
          v11 = src ! nat (y1 * int srcW + x1);
          top = v00 * (1 - xFrac) + v10 * xFrac;
          bottom = v01 * (1 - xFrac) + v11 * xFrac
      in top * (1 - yFrac) + bottom * yFrac)"

definition bilinearInterpolate ::
  "real list \<Rightarrow> nat \<Rightarrow> nat \<Rightarrow> real list \<Rightarrow> nat \<Rightarrow> nat \<Rightarrow> real list" where
  "bilinearInterpolate src srcW srcH dst dstW dstH =
     (let xRatio = real srcW / real dstW;
          yRatio = real srcH / real dstH
      in write_rows dst dstW dstH (bilinear_pixel src srcW srcH xRatio yRatio))"

definition cubicWeight :: "real \<Rightarrow> real" where
  "cubicWeight t0 =
     (let t = \<bar>t0\<bar>
      in if t \<le> 1 then 1.5 * t * t * t - 2.5 * t * t + 1
         else if t \<le> 2 then - 0.5 * t * t * t + 2.5 * t * t - 4 * t + 2
         else 0)"

text \<open>
  The two inner loops of \<open>ScalingUtils.bicubicInterpolate\<close> over the 4 x 4 neighbourhood
  (\<open>j\<close> and \<open>i\<close> from -1 to 2), returning the final \<open>sum\<close> and \<open>weightSum\<close>.
\<close>

definition ScalingUtils_bicubic_sums ::
  "real list \<Rightarrow> nat \<Rightarrow> nat \<Rightarrow> int \<Rightarrow> int \<Rightarrow> real \<Rightarrow> real \<Rightarrow> real \<times> real" where
  "ScalingUtils_bicubic_sums src srcW srcH x0 y0 xFrac yFrac =
     fold (\<lambda>j. fold (\<lambda>i (sum, weightSum).
         let px = max 0 (min (int srcW - 1) (x0 + i));
             py = max 0 (min (int srcH - 1) (y0 + j));
             weight = cubicWeight (real_of_int i - xFrac) * cubicWeight (real_of_int j - yFrac)
         in (sum + src ! nat (py * int srcW + px) * weight, weightSum + weight))
       [- 1, 0, 1, 2])
     [- 1, 0, 1, 2] (0, 0)"

text \<open>The body of the pixel loops of \<open>ScalingUtils.bicubicInterpolate\<close>.\<close>

definition ScalingUtils_bicubic_pixel ::
  "real list \<Rightarrow> nat \<Rightarrow> nat \<Rightarrow> real \<Rightarrow> real \<Rightarrow> nat \<Rightarrow> nat \<Rightarrow> real" where
  "ScalingUtils_bicubic_pixel src srcW srcH xRatio yRatio x y =
     (let srcX = real x * xRatio;
          srcY = real y * yRatio;
          x0 = \<lfloor>srcX\<rfloor>;
          y0 = \<lfloor>srcY\<rfloor>;
          xFrac = srcX - real_of_int x0;
          yFrac = srcY - real_of_int y0;
          (sum, weightSum) = ScalingUtils_bicubic_sums src srcW srcH x0 y0 xFrac yFrac
      in max 0 (min 1 (sum / weightSum)))"

definition ScalingUtils_bicubicInterpolate ::
  "real list \<Rightarrow> nat \<Rightarrow> nat \<Rightarrow> real list \<Rightarrow> nat \<Rightarrow> nat \<Rightarrow> real list" where
  "ScalingUtils_bicubicInterpolate src srcW srcH dst dstW dstH =
     (let xRatio = real srcW / real dstW;
          yRatio = real srcH / real dstH
      in write_rows dst dstW dstH (ScalingUtils_bicubic_pixel src srcW srcH xRatio yRatio))"

definition lanczosKernel :: "real \<Rightarrow> real \<Rightarrow> real" where
  "lanczosKernel x a =
     (if x = 0 then 1
      else if \<bar>x\<bar> \<ge> a then 0
      else (let pix = pi * x in (a * sin pix * sin (pix / a)) / (pix * pix)))"

text \<open>
  The two inner loops of \<open>ScalingUtils.lanczosInterpolate\<close> (\<open>j\<close> and \<open>i\<close> from
  \<open>-a + 1\<close> to \<open>a\<close> with \<open>a = 3\<close>).
\<close>

definition lanczos_sums ::
  "real list \<Rightarrow> nat \<Rightarrow> nat \<Rightarrow> real \<Rightarrow> real \<Rightarrow> int \<Rightarrow> int \<Rightarrow> real \<Rightarrow> real \<times> real" where
  "lanczos_sums src srcW srcH srcX srcY x0 y0 a =
     fold (\<lambda>j. fold (\<lambda>i (sum, weightSum).
         let px = max 0 (min (int srcW - 1) (x0 + i));
             py = max 0 (min (int srcH - 1) (y0 + j));
             dx = srcX - real_of_int (x0 + i);
             dy = srcY - real_of_int (y0 + j);
             weight = lanczosKernel dx a * lanczosKernel dy a
         in (sum + src ! nat (py * int srcW + px) * weight, weightSum + weight))
       [- 2, - 1, 0, 1, 2, 3])
     [- 2, - 1, 0, 1, 2, 3] (0, 0)"

text \<open>The body of the pixel loops of \<open>ScalingUtils.lanczosInterpolate\<close>.\<close>

definition lanczos_pixel ::
  "real list \<Rightarrow> nat \<Rightarrow> nat \<Rightarrow> real \<Rightarrow> real \<Rightarrow> nat \<Rightarrow> nat \<Rightarrow> real" where
  "lanczos_pixel src srcW srcH xRatio yRatio x y =
     (let a = 3;
          srcX = real x * xRatio;
          srcY = real y * yRatio;
          x0 = \<lfloor>srcX\<rfloor>;
          y0 = \<lfloor>srcY\<rfloor>;
          (sum, weightSum) = lanczos_sums src srcW srcH srcX srcY x0 y0 a
      in max 0 (min 1 (if weightSum > 0 then sum / weightSum else 0)))"

definition lanczosInterpolate ::
  "real list \<Rightarrow> nat \<Rightarrow> nat \<Rightarrow> real list \<Rightarrow> nat \<Rightarrow> nat \<Rightarrow> real list" where
  "lanczosInterpolate src srcW srcH dst dstW dstH =
     (let xRatio = real srcW / real dstW;
          yRatio = real srcH / real dstH
      in write_rows dst dstW dstH (lanczos_pixel src srcW srcH xRatio yRatio))"

definition scaleBuffer ::
  "real list \<Rightarrow> nat \<Rightarrow> nat \<Rightarrow> real list \<Rightarrow> nat \<Rightarrow> nat \<Rightarrow> string \<Rightarrow> real list" where
  "scaleBuffer src srcW srcH dst dstW dstH method =
     (if method = ''nearest'' then nearestInterpolate src srcW srcH dst dstW dstH
      else if method = ''bilinear'' then bilinearInterpolate src srcW srcH dst dstW dstH
      else if method = ''lanczos'' then lanczosInterpolate src srcW srcH dst dstW dstH
      else ScalingUtils_bicubicInterpolate src srcW srcH dst dstW dstH)"

section \<open>Resampling: InsetEngine\<close>

text \<open>
  \<open>v | 0\<close>: the number truncated towards zero, then wrapped into the signed 32-bit
  range (ToInt32).
\<close>

definition to_int32 :: "real \<Rightarrow> int" where
  "to_int32 v =
     (let n = (if v < 0 then \<lceil>v\<rceil> else \<lfloor>v\<rfloor>);
          k = n mod 2 ^ 32
      in if k \<ge> 2 ^ 31 then k - 2 ^ 32 else k)"

text \<open>The local function \<open>computeCubicWeight\<close> of the engine's interpolator.\<close>

definition computeCubicWeight :: "real \<Rightarrow> real" where
  "computeCubicWeight t0 =
     (let t = (if t0 < 0 then - t0 else t0)
      in if t \<le> 1 then 1.5 * t * t * t - 2.5 * t * t + 1
         else if t \<le> 2 then - 0.5 * t * t * t + 2.5 * t * t - 4 * t + 2
         else 0)"

text \<open>
  \<open>InsetEngine.prototype.bicubicInterpolate\<close>: first its two inner loops over the 4 x 4
  neighbourhood (\<open>j\<close> and \<open>i\<close> from 0 to 3, with the weights read from the two
  arrays), then the body of its pixel loops. The y weights, which the source computes
  once per row, depend on \<open>y\<close> only.
\<close>

definition InsetEngine_bicubic_sums ::
  "real list \<Rightarrow> nat \<Rightarrow> nat \<Rightarrow> int \<Rightarrow> int \<Rightarrow> real list \<Rightarrow> real list \<Rightarrow> real \<times> real" where
  "InsetEngine_bicubic_sums src srcW srcH x0 y0 xWeights yWeights =
     fold (\<lambda>j (sum, weightSum).
         let py0 = y0 + int j - 1;
             py = (if py0 < 0 then 0 else if py0 \<ge> int srcH then int srcH - 1 else py0);
             pyOffset = py * int srcW;
             yWeight = yWeights ! j
         in fold (\<lambda>i (sum, weightSum).
              let px0 = x0 + int i - 1;
                  px = (if px0 < 0 then 0 else if px0 \<ge> int srcW then int srcW - 1 else px0);
                  weight = xWeights ! i * yWeight
              in (sum + src ! nat (pyOffset + px) * weight, weightSum + weight))
            [0, 1, 2, 3] (sum, weightSum))
       [0, 1, 2, 3] (0, 0)"

definition InsetEngine_bicubic_pixel ::
  "real list \<Rightarrow> nat \<Rightarrow> nat \<Rightarrow> real \<Rightarrow> real \<Rightarrow> nat \<Rightarrow> nat \<Rightarrow> real" where
  "InsetEngine_bicubic_pixel src srcW srcH xRatio yRatio x y =
     (let srcY = real y * yRatio;
          y0 = to_int32 srcY;
          yFrac = srcY - real_of_int y0;
          yWeights = [computeCubicWeight (- 1 - yFrac), computeCubicWeight (0 - yFrac),
                      computeCubicWeight (1 - yFrac), computeCubicWeight (2 - yFrac)];
          srcX = real x * xRatio;
          x0 = to_int32 srcX;
          xFrac = srcX - real_of_int x0;
          xWeights = [computeCubicWeight (- 1 - xFrac), computeCubicWeight (0 - xFrac),
                      computeCubicWeight (1 - xFrac), computeCubicWeight (2 - xFrac)];
          (sum, weightSum) = InsetEngine_bicubic_sums src srcW srcH x0 y0 xWeights yWeights;
          result = sum / weightSum
      in if result < 0 then 0 else if result > 1 then 1 else result)"

definition InsetEngine_bicubicInterpolate ::
  "real list \<Rightarrow> nat \<Rightarrow> nat \<Rightarrow> real list \<Rightarrow> nat \<Rightarrow> nat \<Rightarrow> real list" where
  "InsetEngine_bicubicInterpolate src srcW srcH dst dstW dstH =
     (let xRatio = real srcW / real dstW;
          yRatio = real srcH / real dstH
      in write_rows dst dstW dstH (InsetEngine_bicubic_pixel src srcW srcH xRatio yRatio))"

record engine =
  interpolationMethod :: string

text \<open>The constructor \<open>InsetEngine()\<close>.\<close>

definition InsetEngine :: engine where
  "InsetEngine = \<lparr>interpolationMethod = ''bicubic''\<rparr>"

text \<open>
  \<open>InsetEngine.prototype.scalePixels\<close>, a method of the engine object \<open>self\<close>. Each
  destination buffer is a fresh array of zeros.
\<close>

definition scalePixels :: "engine \<Rightarrow> region \<Rightarrow> nat \<Rightarrow> nat \<Rightarrow> region" where
  "scalePixels self extractedData targetWidth targetHeight =
     (let srcWidth = reg_width extractedData;
          srcHeight = reg_height extractedData;
          channels = reg_channels extractedData;
          scaledPixels =
            map (\<lambda>c. InsetEngine_bicubicInterpolate (reg_pixels extractedData ! c)
                        srcWidth srcHeight
                        (replicate (targetWidth * targetHeight) 0) targetWidth targetHeight)
              [0..<channels];
          scaledMask =
            (if reg_isCircular extractedData
             then (let cx = real targetWidth / 2;
                       cy = real targetHeight / 2;
                       radius = real (min targetWidth targetHeight) / 2
                   in Some (rows targetWidth targetHeight (circle_alpha radius cx cy)))
             else None)
      in \<lparr>reg_pixels = scaledPixels, reg_width = targetWidth, reg_height = targetHeight,
          reg_channels = channels, reg_mask = scaledMask,
          reg_isCircular = reg_isCircular extractedData\<rparr>)"

text \<open>
  The formula of the claim about the two bicubic interpolators, in its own words: the
  sample at source coordinate \<open>(srcX, srcY)\<close> is
  \<open>clamp (\<Sum> src[clamped 4 x 4 neighbourhood] * w / \<Sum> w, 0, 1)\<close> with the piecewise cubic
  weight \<open>cubicWeight\<close> in each axis. It is compared with both interpolators below.
\<close>

definition bicubic_claimed :: "real list \<Rightarrow> nat \<Rightarrow> nat \<Rightarrow> real \<Rightarrow> real \<Rightarrow> real" where
  "bicubic_claimed src srcW srcH srcX srcY =
     (let x0 = \<lfloor>srcX\<rfloor>;
          y0 = \<lfloor>srcY\<rfloor>;
          neighbourhood = concat (map (\<lambda>j. map (\<lambda>i. (i, j)) [- 1, 0, 1, 2]) [- 1, 0, 1, 2]);
          w = (\<lambda>(i, j). cubicWeight (real_of_int i - (srcX - real_of_int x0))
                         * cubicWeight (real_of_int j - (srcY - real_of_int y0)));
          v = (\<lambda>(i, j). src ! nat (max 0 (min (int srcH - 1) (y0 + j)) * int srcW
                                    + max 0 (min (int srcW - 1) (x0 + i))))
      in max 0 (min 1 (sum_list (map (\<lambda>p. v p * w p) neighbourhood)
                       / sum_list (map w neighbourhood))))"

text \<open>
  The same kernel at a given base pixel \<open>(x0, y0)\<close> and given fractions: the formula
  \<open>scalePixels\<close> is compared with, whatever the integer part the interpolator takes
  of a source coordinate.
\<close>

definition bicubic_kernel ::
  "real list \<Rightarrow> nat \<Rightarrow> nat \<Rightarrow> int \<Rightarrow> int \<Rightarrow> real \<Rightarrow> real \<Rightarrow> real" where
  "bicubic_kernel src srcW srcH x0 y0 xFrac yFrac =
     (let neighbourhood = concat (map (\<lambda>j. map (\<lambda>i. (i, j)) [- 1, 0, 1, 2]) [- 1, 0, 1, 2]);
          w = (\<lambda>(i, j). cubicWeight (real_of_int i - xFrac) * cubicWeight (real_of_int j - yFrac));
          v = (\<lambda>(i, j). src ! nat (max 0 (min (int srcH - 1) (y0 + j)) * int srcW
                                    + max 0 (min (int srcW - 1) (x0 + i))))
      in max 0 (min 1 (sum_list (map (\<lambda>p. v p * w p) neighbourhood)
                       / sum_list (map w neighbourhood))))"

section \<open>Border\<close>

record color =
  col_r :: real
  col_g :: real
  col_b :: real
  col_a :: "real option"

text \<open>The expression \<open>(color.a !== undefined) ? color.a : 1.0\<close>.\<close>

definition color_alpha :: "color \<Rightarrow> real" where
  "color_alpha c = (case col_a c of Some a \<Rightarrow> a | None \<Rightarrow> 1)"

text \<open>
  \<open>InsetEngine.prototype.addBorder\<close>, in four parts. First the buffer of one channel:
  filled with the border value, then the source copied to the centre, blended through the
  source mask when there is one.
\<close>

definition addBorder_channel :: "region \<Rightarrow> nat \<Rightarrow> real \<Rightarrow> nat \<Rightarrow> real list" where
  "addBorder_channel scaledData borderWidth borderVal c =
     (let srcW = reg_width scaledData;
          srcH = reg_height scaledData;
          dstW = srcW + borderWidth * 2;
          dstH = srcH + borderWidth * 2;
          dstBuffer = replicate (dstW * dstH) borderVal;
          srcBuffer = reg_pixels scaledData ! c;
          srcMask = reg_mask scaledData
      in fold (\<lambda>y. fold (\<lambda>x buf.
           let dstX = x + borderWidth;
               dstY = y + borderWidth;
               dstIdx = dstY * dstW + dstX;
               srcIdx = y * srcW + x
           in (case srcMask of
                 Some m \<Rightarrow>
                   (let alpha = m ! srcIdx;
                        borderVal = buf ! dstIdx
                    in buf[dstIdx := srcBuffer ! srcIdx * alpha + borderVal * (1 - alpha)])
               | None \<Rightarrow> buf[dstIdx := srcBuffer ! srcIdx]))
           [0..<srcW])
         [0..<srcH] dstBuffer)"

text \<open>The mask of the bordered output when the input has a mask (the circular case).\<close>

definition addBorder_circularMask :: "nat \<Rightarrow> nat \<Rightarrow> nat \<Rightarrow> real \<Rightarrow> real list" where
  "addBorder_circularMask dstW dstH borderWidth borderAlpha =
     (let cx = real dstW / 2;
          cy = real dstH / 2;
          outerRadius = real (min dstW dstH) / 2;
          innerRadius = outerRadius - real borderWidth
      in rows dstW dstH (\<lambda>x y.
           let dist = circle_dist cx cy x y
           in if dist > outerRadius + 0.5 then 0
              else if dist > outerRadius - 0.5 then
                (let edgeAlpha = outerRadius + 0.5 - dist in borderAlpha * edgeAlpha)
              else if dist > innerRadius then borderAlpha
              else 1))"

text \<open>The mask of the bordered output when the input has no mask (the rectangular case).\<close>

definition addBorder_rectMask :: "nat \<Rightarrow> nat \<Rightarrow> nat \<Rightarrow> real \<Rightarrow> real list" where
  "addBorder_rectMask dstW dstH borderWidth borderAlpha =
     (let borderedMask = replicate (dstW * dstH) borderAlpha;
          x0 = borderWidth;
          y0 = borderWidth;
          x1 = dstW - borderWidth;
          y1 = dstH - borderWidth
      in fold (\<lambda>y. fold (\<lambda>x m. m[y * dstW + x := 1]) [x0..<x1]) [y0..<y1] borderedMask)"

text \<open>
  The channel loop. In the source the mask is built inside this loop, once per channel,
  into a variable declared with \<open>var\<close>: it is \<open>undefined\<close> (\<open>None\<close>) until the first
  iteration has run.
\<close>

definition addBorder :: "region \<Rightarrow> nat \<Rightarrow> color \<Rightarrow> region" where
  "addBorder scaledData borderWidth borderColor =
     (let srcW = reg_width scaledData;
          srcH = reg_height scaledData;
          dstW = srcW + borderWidth * 2;
          dstH = srcH + borderWidth * 2;
          channels = reg_channels scaledData;
          colors = [col_r borderColor, col_g borderColor, col_b borderColor];
          (borderedPixels, borderedMask) =
            fold (\<lambda>c (borderedPixels, borderedMask).
                let borderVal = (if c < 3 then colors ! c else 1);
                    dstBuffer = addBorder_channel scaledData borderWidth borderVal c;
                    borderAlpha = color_alpha borderColor;
                    newMask =
                      (case reg_mask scaledData of
                         Some m \<Rightarrow> addBorder_circularMask dstW dstH borderWidth borderAlpha
                       | None \<Rightarrow> addBorder_rectMask dstW dstH borderWidth borderAlpha)
                in (borderedPixels @ [dstBuffer], Some newMask))
              [0..<channels] ([], None)
      in \<lparr>reg_pixels = borderedPixels, reg_width = dstW, reg_height = dstH,
          reg_channels = channels, reg_mask = borderedMask,
          reg_isCircular = reg_isCircular scaledData\<rparr>)"

section \<open>Compositing\<close>

text \<open>
  \<open>InsetEngine.prototype.compositeInset\<close>, in two parts. First its two inner loops
  over the visible rectangle, which replace every sample of the buffer read from the
  target by the blend of the inset sample over it.
\<close>

definition compositeInset_blend ::
  "region \<Rightarrow> real \<Rightarrow> int \<Rightarrow> int \<Rightarrow> nat \<Rightarrow> nat \<Rightarrow> nat \<Rightarrow> real list \<Rightarrow> real list" where
  "compositeInset_blend insetData globalAlpha offsetX offsetY validW validH c targetBuffer =
     (let insetW = reg_width insetData;
          insetBuffer = reg_pixels insetData ! c
      in rows validW validH (\<lambda>x y.
           let iy = int y + offsetY;
               ix = int x + offsetX;
               srcIdx = nat (iy * int insetW + ix);
               tgtIdx = y * validW + x;
               pixelAlpha = (case reg_mask insetData of
                               Some m \<Rightarrow> globalAlpha * m ! srcIdx
                             | None \<Rightarrow> globalAlpha)
           in insetBuffer ! srcIdx * pixelAlpha + targetBuffer ! tgtIdx * (1 - pixelAlpha)))"

text \<open>
  Then the function: \<open>opacity\<close> is its optional fourth argument, and the image it has
  written to is returned.
\<close>

definition compositeInset :: "image \<Rightarrow> region \<Rightarrow> position \<Rightarrow> real option \<Rightarrow> image" where
  "compositeInset targetImage insetData pos opacity =
     (let globalAlpha = (case opacity of Some v \<Rightarrow> v | None \<Rightarrow> 1);
          insetW = reg_width insetData;
          insetH = reg_height insetData;
          channels = min (reg_channels insetData) (numberOfChannels targetImage);
          destRect = Rect (pos_x pos) (pos_y pos)
                          (pos_x pos + int insetW) (pos_y pos + int insetH);
          safeRect = intersection destRect
                       (Rect 0 0 (int (img_width targetImage)) (int (img_height targetImage)))
      in if isEmpty safeRect then targetImage
         else
           (let offsetX = rect_x0 safeRect - rect_x0 destRect;
                offsetY = rect_y0 safeRect - rect_y0 destRect;
                validW = nat (rect_width safeRect);
                validH = nat (rect_height safeRect)
            in fold (\<lambda>c img.
                 let targetBuffer = getSamples img safeRect c;
                     blended = compositeInset_blend insetData globalAlpha offsetX offsetY
                                 validW validH c targetBuffer
                 in setSamples img blended safeRect c)
               [0..<channels] targetImage))"

text \<open>
  The blend the compositor is claimed to store at destination pixel \<open>(X, Y)\<close> of
  channel \<open>c\<close>: \<open>src * alpha + dest * (1 - alpha)\<close> with
  \<open>alpha = globalOpacity * maskValue\<close>, the mask value being 1 without a mask, and the
  inset sample taken at \<open>(X - pos.x, Y - pos.y)\<close>.
\<close>

definition blend_value :: "region \<Rightarrow> real \<Rightarrow> position \<Rightarrow> nat \<Rightarrow> nat \<Rightarrow> nat \<Rightarrow> real \<Rightarrow> real" where
  "blend_value ins ga pos c X Y old =
     (let srcIdx = nat ((int Y - pos_y pos) * int (reg_width ins) + (int X - pos_x pos));
          alpha = ga * (case reg_mask ins of Some m \<Rightarrow> m ! srcIdx | None \<Rightarrow> 1)
      in reg_pixels ins ! c ! srcIdx * alpha + old * (1 - alpha))"

section \<open>Thick lines\<close>

text \<open>
  \<open>InsetEngine.prototype.bresenhamLine\<close>. First the coverage it computes for the pixel
  in column \<open>X\<close> (\<open>minX + col\<close> in the source) and row \<open>Y\<close>: the distance from the
  pixel centre to the closest point of the segment, with the substitution made for a
  segment shorter than 0.001, then the coverage.
\<close>

definition bresenhamLine_dist :: "real \<Rightarrow> real \<Rightarrow> real \<Rightarrow> real \<Rightarrow> int \<Rightarrow> int \<Rightarrow> real" where
  "bresenhamLine_dist x0 y0 x1 y1 X Y =
     (let dx0 = x1 - x0;
          dy0 = y1 - y0;
          lineLength0 = sqrt (dx0 * dx0 + dy0 * dy0);
          degenerate = (lineLength0 < 0.001);
          lineLength = (if degenerate then 1 else lineLength0);
          dx = (if degenerate then 1 else dx0);
          dy = (if degenerate then 0 else dy0);
          ndx = dx / lineLength;
          ndy = dy / lineLength;
          py = real_of_int Y + 0.5;
          px = real_of_int X + 0.5;
          t0 = (px - x0) * ndx + (py - y0) * ndy;
          t = (if t0 < 0 then 0 else if t0 > lineLength then lineLength else t0);
          closestX = x0 + t * ndx;
          closestY = y0 + t * ndy;
          distX = px - closestX;
          distY = py - closestY
      in sqrt (distX * distX + distY * distY))"

definition bresenhamLine_coverage ::
  "real \<Rightarrow> real \<Rightarrow> real \<Rightarrow> real \<Rightarrow> real \<Rightarrow> int \<Rightarrow> int \<Rightarrow> real" where
  "bresenhamLine_coverage x0 y0 x1 y1 thickness X Y =
     (let halfThick = thickness / 2;
          dist = bresenhamLine_dist x0 y0 x1 y1 X Y
      in if dist \<le> halfThick + 0.5
         then (if dist \<le> halfThick - 0.5 then 1 else halfThick + 0.5 - dist)
         else 0)"

text \<open>
  The function itself: the padded bounding box, then row by row the coverage of every
  pixel of the row, and for a row with coverage the blend of the colour into the first
  three channels at most. The new image is returned.
\<close>

definition bresenhamLine ::
  "image \<Rightarrow> real \<Rightarrow> real \<Rightarrow> real \<Rightarrow> real \<Rightarrow> color \<Rightarrow> real \<Rightarrow> image" where
  "bresenhamLine img x0 y0 x1 y1 col thickness =
     (let alpha = color_alpha col;
          halfThick = thickness / 2;
          padding = halfThick + 1.5;
          minX = max 0 \<lfloor>min x0 x1 - padding\<rfloor>;
          maxX = min (int (img_width img)) \<lceil>max x0 x1 + padding\<rceil>;
          minY = max 0 \<lfloor>min y0 y1 - padding\<rfloor>;
          maxY = min (int (img_height img)) \<lceil>max y0 y1 + padding\<rceil>;
          rowWidth = maxX - minX
      in if rowWidth \<le> 0 \<or> maxY \<le> minY then img
         else
           (let colors = [col_r col, col_g col, col_b col];
                channels = min 3 (numberOfChannels img)
            in fold (\<lambda>row im.
                 let rowRect = Rect minX row maxX (row + 1);
                     coverageRow =
                       map (\<lambda>k. bresenhamLine_coverage x0 y0 x1 y1 thickness (minX + int k) row)
                         [0..<nat rowWidth];
                     hasCoverage = list_ex (\<lambda>coverage. coverage > 0) coverageRow
                 in if \<not> hasCoverage then im
                    else fold (\<lambda>c im.
                           let buffer = getSamples im rowRect c;
                               colorVal = colors ! c;
                               blended =
                                 map (\<lambda>(coverage, v).
                                        if coverage > 0
                                        then (let pixelAlpha = alpha * coverage
                                              in colorVal * pixelAlpha + v * (1 - pixelAlpha))
                                        else v)
                                   (zip coverageRow buffer);
                               modified = list_ex (\<lambda>coverage. coverage > 0) coverageRow
                           in if modified then setSamples im blended rowRect c else im)
                         [0..<channels] im)
               (map (\<lambda>k. minY + int k) [0..<nat (maxY - minY)]) img))"

section \<open>Concrete inputs\<close>

text \<open>Small images, regions, colours and positions at which the theorems are applied.\<close>

definition img10 :: image where
  "img10 = \<lparr>img_width = 10, img_height = 10, img_samples = [replicate 100 (1 / 2)]\<rparr>"

definition centre5 :: point where
  "centre5 = \<lparr>pt_x = 5, pt_y = 5\<rparr>"

definition src4 :: "real list" where
  "src4 = [1 / 10, 2 / 10, 3 / 10, 4 / 10]"

definition region4 :: region where
  "region4 = \<lparr>reg_pixels = [src4], reg_width = 2, reg_height = 2, reg_channels = 1,
               reg_mask = None, reg_isCircular = False\<rparr>"

definition circ2 :: region where
  "circ2 = \<lparr>reg_pixels = [[0, 0, 0, 0]], reg_width = 2, reg_height = 2, reg_channels = 1,
             reg_mask = Some [1, 1, 1, 1], reg_isCircular = True\<rparr>"

definition region0 :: region where
  "region0 = \<lparr>reg_pixels = [], reg_width = 2, reg_height = 2, reg_channels = 0,
               reg_mask = None, reg_isCircular = False\<rparr>"

definition white :: color where
  "white = \<lparr>col_r = 1, col_g = 1, col_b = 1, col_a = None\<rparr>"


definition img14 :: image where
  "img14 = \<lparr>img_width = 14, img_height = 1, img_samples = [replicate 14 0]\<rparr>"

definition img2 :: image where
  "img2 = \<lparr>img_width = 2, img_height = 2, img_samples = [[1 / 10, 2 / 10, 3 / 10, 4 / 10]]\<rparr>"

definition inset1 :: region where
  "inset1 = \<lparr>reg_pixels = [[1]], reg_width = 1, reg_height = 1, reg_channels = 1,
              reg_mask = Some [1 / 2], reg_isCircular = False\<rparr>"

definition pos11 :: position where
  "pos11 = \<lparr>pos_x = 1, pos_y = 1\<rparr>"

definition pos55 :: position where
  "pos55 = \<lparr>pos_x = 5, pos_y = 5\<rparr>"

section \<open>Properties: buffers\<close>

lemma rows_Suc: "rows w (Suc h) f = rows w h f @ map (\<lambda>x. f x h) [0..<w]"
  by (simp add: rows_def)

lemma length_rows: "length (rows w h f) = w * h"
  by (induction h) (simp_all add: rows_Suc, simp add: rows_def)

lemma index_less: "x < w \<Longrightarrow> y < h \<Longrightarrow> y * w + x < w * (h::nat)"
proof -
  assume a: "x < w" "y < h"
  then have "y * w + x < y * w + w" by simp
  also have "\<dots> = Suc y * w" by simp
  also have "\<dots> \<le> h * w" using a(2) by (intro mult_le_mono1) simp
  finally show ?thesis by (simp add: mult.commute)
qed

lemma rows_nth: "x < w \<Longrightarrow> y < h \<Longrightarrow> rows w h f ! (y * w + x) = f x y"
proof (induction h)
  case 0
  then show ?case by simp
next
  case (Suc h)
  show ?case
  proof (cases "y < h")
    case True
    with Suc show ?thesis
      by (simp add: rows_Suc nth_append length_rows index_less)
  next
    case False
    with Suc.prems have "y = h" by simp
    with Suc.prems show ?thesis
      by (simp add: rows_Suc nth_append length_rows mult.commute)
  qed
qed

lemma rows_index: "i < w * h \<Longrightarrow> rows w h f ! i = f (i mod w) (i div w)"
proof -
  assume a: "i < w * h"
  then have w: "0 < w" by (cases w) simp_all
  have "i div w < h" using a w by (simp add: less_mult_imp_div_less mult.commute)
  moreover have "i mod w < w" using w by simp
  ultimately have "rows w h f ! ((i div w) * w + i mod w) = f (i mod w) (i div w)"
    by (rule rows_nth[rotated])
  then show ?thesis by simp
qed

lemma rows_cong: "(\<And>x y. x < w \<Longrightarrow> y < h \<Longrightarrow> f x y = g x y) \<Longrightarrow> rows w h f = rows w h g"
proof (rule nth_equalityI)
  show "length (rows w h f) = length (rows w h g)" by (simp add: length_rows)
next
  fix i assume a: "i < length (rows w h f)" and eq: "\<And>x y. x < w \<Longrightarrow> y < h \<Longrightarrow> f x y = g x y"
  then have i: "i < w * h" by (simp add: length_rows)
  then have w: "0 < w" by (cases w) simp_all
  have "i div w < h" using i w by (simp add: less_mult_imp_div_less mult.commute)
  moreover have "i mod w < w" using w by simp
  ultimately show "rows w h f ! i = rows w h g ! i" using i eq by (simp add: rows_index)
qed

lemma rows_same: "length xs = w * h \<Longrightarrow> rows w h (\<lambda>x y. xs ! (y * w + x)) = xs"
  by (rule nth_equalityI) (simp_all add: length_rows rows_index)

section \<open>Properties: positioner\<close>

text \<open>
  C5. Both coordinates returned by \<open>calculatePosition\<close> are the resolved preset
  coordinate clamped by \<open>max 0 (min (imgDim - insDim) _)\<close>, as spelled out for the four
  corners and for custom coordinates: they are never negative, and never exceed
  \<open>imgDim - insDim\<close> when the inset fits into the image. For the preset
  Bottom-Right, image 1000 x 800, inset 200 x 150 and margin 10 the result is (790, 640);
  for the oversized inset 1200 x 150 on the same image the x coordinate is 0.
\<close>

theorem calculatePosition_clamped:
  "0 \<le> pos_x (calculatePosition iw ih nw nh preset margin custom)
   \<and> 0 \<le> pos_y (calculatePosition iw ih nw nh preset margin custom)
   \<and> (nw \<le> iw \<longrightarrow> pos_x (calculatePosition iw ih nw nh preset margin custom) \<le> iw - nw)
   \<and> (nh \<le> ih \<longrightarrow> pos_y (calculatePosition iw ih nw nh preset margin custom) \<le> ih - nh)
   \<and> calculatePosition iw ih nw nh ''Top-Left'' margin custom
       = \<lparr>pos_x = max 0 (min (iw - nw) margin), pos_y = max 0 (min (ih - nh) margin)\<rparr>
   \<and> calculatePosition iw ih nw nh ''Top-Right'' margin custom
       = \<lparr>pos_x = max 0 (min (iw - nw) (iw - nw - margin)),
          pos_y = max 0 (min (ih - nh) margin)\<rparr>
   \<and> calculatePosition iw ih nw nh ''Bottom-Left'' margin custom
       = \<lparr>pos_x = max 0 (min (iw - nw) margin),
          pos_y = max 0 (min (ih - nh) (ih - nh - margin))\<rparr>
   \<and> calculatePosition iw ih nw nh ''Bottom-Right'' margin custom
       = \<lparr>pos_x = max 0 (min (iw - nw) (iw - nw - margin)),
          pos_y = max 0 (min (ih - nh) (ih - nh - margin))\<rparr>
   \<and> calculatePosition iw ih nw nh ''Custom'' margin (Some p)
       = \<lparr>pos_x = max 0 (min (iw - nw) (pos_x p)), pos_y = max 0 (min (ih - nh) (pos_y p))\<rparr>
   \<and> calculatePosition 1000 800 200 150 ''Bottom-Right'' 10 custom
       = \<lparr>pos_x = 790, pos_y = 640\<rparr>
   \<and> pos_x (calculatePosition 1000 800 1200 150 ''Bottom-Right'' 10 custom) = 0"
  by (simp add: calculatePosition_def Let_def)

theorem calculatePosition_clamped_witness:
  "(200::int) \<le> 1000 \<and> (150::int) \<le> 800
   \<and> pos_x (calculatePosition 1000 800 200 150 ''Top-Right'' 10 None) = 790
   \<and> pos_x (calculatePosition 1000 800 200 150 ''Top-Right'' 10 None) \<le> 1000 - 200
   \<and> pos_y (calculatePosition 1000 800 200 150 ''Top-Right'' 10 None) \<le> 800 - 150"
  using calculatePosition_clamped [of 1000 800 200 150 "''Top-Right''" 10 None]
  by (simp add: calculatePosition_def Let_def)

section \<open>Properties: region extraction\<close>

text \<open>
  C2. \<open>extractRegion\<close> fails with \<open>OutOfBounds\<close> exactly when the rectangle is not
  inside the image (tested first), with \<open>RegionTooSmall\<close> exactly when it is inside and
  its width or height is below 10. On failure no call has been made on the image, and no
  call is ever a write. For a rectangle inside the image with width and height at least
  10 it returns a region of that width and height, with one buffer of width * height
  samples per channel of the image (the samples of the rectangle) and no mask.
\<close>

theorem extractRegion_validation:
  "(snd (extractRegion img r) = Inl OutOfBounds \<longleftrightarrow>
      (rect_x0 r < 0 \<or> rect_y0 r < 0 \<or>
       int (img_width img) < rect_x1 r \<or> int (img_height img) < rect_y1 r))
   \<and> (snd (extractRegion img r) = Inl RegionTooSmall \<longleftrightarrow>
      (0 \<le> rect_x0 r \<and> 0 \<le> rect_y0 r \<and>
       rect_x1 r \<le> int (img_width img) \<and> rect_y1 r \<le> int (img_height img) \<and>
       (rect_width r < 10 \<or> rect_height r < 10)))
   \<and> ((\<exists>e. snd (extractRegion img r) = Inl e) \<longrightarrow> fst (extractRegion img r) = [])
   \<and> (\<forall>call \<in> set (fst (extractRegion img r)). \<exists>c. call = GetSamples r c)
   \<and> (0 \<le> rect_x0 r \<and> 0 \<le> rect_y0 r \<and>
       rect_x1 r \<le> int (img_width img) \<and> rect_y1 r \<le> int (img_height img) \<and>
       10 \<le> rect_width r \<and> 10 \<le> rect_height r \<longrightarrow>
       (\<exists>d. snd (extractRegion img r) = Inr d
          \<and> reg_width d = nat (rect_width r) \<and> reg_height d = nat (rect_height r)
          \<and> reg_channels d = numberOfChannels img
          \<and> length (reg_pixels d) = numberOfChannels img
          \<and> (\<forall>c < numberOfChannels img.
                reg_pixels d ! c = getSamples img r c
              \<and> length (reg_pixels d ! c) = nat (rect_width r) * nat (rect_height r))
          \<and> reg_mask d = None))"
  by (auto simp add: extractRegion_def Let_def getSamples_def length_rows)

theorem extractRegion_validation_witness:
  "(\<exists>d. snd (extractRegion img10 (Rect 0 0 10 10)) = Inr d
        \<and> reg_width d = 10 \<and> reg_height d = 10 \<and> reg_mask d = None
        \<and> length (reg_pixels d ! 0) = 100)
   \<and> snd (extractRegion img10 (Rect 0 0 11 10)) = Inl OutOfBounds
   \<and> snd (extractRegion img10 (Rect 0 0 9 10)) = Inl RegionTooSmall
   \<and> fst (extractRegion img10 (Rect 0 0 9 10)) = []"
  using extractRegion_validation [of img10 "Rect 0 0 10 10"]
    extractRegion_validation [of img10 "Rect 0 0 11 10"]
    extractRegion_validation [of img10 "Rect 0 0 9 10"]
  by (auto simp add: img10_def Rect_def rect_width_def rect_height_def numberOfChannels_def)

lemma circle_alpha_clamp:
  "circle_alpha radius cx cy x y = max 0 (min 1 (radius + 1 / 2 - circle_dist cx cy x y))"
  by (simp add: circle_alpha_def Let_def max_def min_def)

lemma circle_dist_expl:
  "circle_dist cx cy x y = sqrt ((real x + 1 / 2 - cx)\<^sup>2 + (real y + 1 / 2 - cy)\<^sup>2)"
  by (simp add: circle_dist_def Let_def power2_eq_square algebra_simps)

lemma half_offset: "\<bar>real (w div 2) + 1 / 2 - real w / 2\<bar> \<le> 1 / 2"
proof -
  have "w = 2 * (w div 2) + w mod 2" by simp
  then have "real w = 2 * real (w div 2) + real (w mod 2)"
    by (metis of_nat_add of_nat_mult of_nat_numeral)
  moreover have "w mod 2 = 0 \<or> w mod 2 = 1" by auto
  ultimately show ?thesis by auto
qed

lemma centre_dist_le: "circle_dist (real w / 2) (real h / 2) (w div 2) (h div 2) \<le> 1"
proof -
  have a: "(real (w div 2) + 1 / 2 - real w / 2)\<^sup>2 \<le> (1 / 2)\<^sup>2"
    using half_offset [of w] by (simp add: abs_le_square_iff [symmetric])
  have b: "(real (h div 2) + 1 / 2 - real h / 2)\<^sup>2 \<le> (1 / 2)\<^sup>2"
    using half_offset [of h] by (simp add: abs_le_square_iff [symmetric])
  have "(real (w div 2) + 1 / 2 - real w / 2)\<^sup>2 + (real (h div 2) + 1 / 2 - real h / 2)\<^sup>2 \<le> 1"
    using a b by (simp add: power2_eq_square)
  then show ?thesis
    by (simp only: circle_dist_expl) (simp add: real_sqrt_le_1_iff)
qed

lemma round_span: "real_of_int (js_round (c + r) - js_round (c - r)) < 2 * r + 1"
proof -
  have "real_of_int (js_round (c + r)) \<le> c + r + 1 / 2"
    unfolding js_round_def by (rule of_int_floor_le)
  moreover have "c - r + 1 / 2 < real_of_int (js_round (c - r)) + 1"
    unfolding js_round_def by linarith
  ultimately show ?thesis by simp
qed

lemma extractRegion_Inr:
  "extractRegion img r = (calls, Inr d) \<Longrightarrow>
     10 \<le> rect_width r \<and> 10 \<le> rect_height r \<and>
     reg_width d = nat (rect_width r) \<and> reg_height d = nat (rect_height r)"
  by (auto simp add: extractRegion_def Let_def split: if_splits)

lemma circular_Inr:
  assumes "snd (extractCircularRegion img center diameter) = Inr d"
  shows "9 < diameter \<and> 10 \<le> reg_width d \<and> 10 \<le> reg_height d \<and>
         reg_mask d = Some (rows (reg_width d) (reg_height d)
            (circle_alpha (diameter / 2) (real (reg_width d) / 2) (real (reg_height d) / 2)))"
proof -
  define r where "r = Rect (max 0 (js_round (pt_x center - diameter / 2)))
      (max 0 (js_round (pt_y center - diameter / 2)))
      (min (int (img_width img)) (js_round (pt_x center + diameter / 2)))
      (min (int (img_height img)) (js_round (pt_y center + diameter / 2)))"
  obtain calls res where er: "extractRegion img r = (calls, res)" by (cases "extractRegion img r")
  with assms obtain d0 where res: "res = Inr d0"
    and d: "d = d0\<lparr>reg_mask := Some (rows (reg_width d0) (reg_height d0)
            (circle_alpha (diameter / 2) (real (reg_width d0) / 2) (real (reg_height d0) / 2))),
            reg_isCircular := True\<rparr>"
    by (cases res) (auto simp add: extractCircularRegion_def Let_def r_def)
  from er res have f: "10 \<le> rect_width r" "10 \<le> rect_height r"
    "reg_width d0 = nat (rect_width r)" "reg_height d0 = nat (rect_height r)"
    using extractRegion_Inr by blast+
  have "rect_width r \<le> js_round (pt_x center + diameter / 2) - js_round (pt_x center - diameter / 2)"
    by (simp add: r_def Rect_def rect_width_def)
  with f(1) have "10 \<le> real_of_int (js_round (pt_x center + diameter / 2) - js_round (pt_x center - diameter / 2))"
    by linarith
  with round_span [of "pt_x center" "diameter / 2"] have "9 < diameter" by simp
  moreover have "10 \<le> nat (rect_width r)" "10 \<le> nat (rect_height r)" using f by linarith+
  ultimately show ?thesis using f d by simp
qed


text \<open>
  C3. When \<open>extractCircularRegion\<close> succeeds, the region carries a mask of width * height
  values and is marked circular. The value at pixel \<open>(x, y)\<close> is
  \<open>clamp (radius + 0.5 - dist, 0, 1)\<close> with \<open>radius = diameter / 2\<close> and \<open>dist\<close> the
  Euclidean distance from the centre \<open>(width / 2, height / 2)\<close> of the extracted square
  to the pixel centre \<open>(x + 0.5, y + 0.5)\<close>. Hence a pixel no farther from the centre than
  another has a mask value no smaller, the pixel at the centre of the square has the
  value 1, as has every pixel with \<open>dist \<le> radius - 0.5\<close>, and every pixel with
  \<open>dist > radius + 0.5\<close> has the value 0.
\<close>

theorem extractCircularRegion_mask:
  assumes "snd (extractCircularRegion img center diameter) = Inr d"
  shows "\<exists>m. reg_mask d = Some m \<and> reg_isCircular d
    \<and> length m = reg_width d * reg_height d
    \<and> (\<forall>x y. circle_dist (real (reg_width d) / 2) (real (reg_height d) / 2) x y
          = sqrt ((real x + 1 / 2 - real (reg_width d) / 2)\<^sup>2
                + (real y + 1 / 2 - real (reg_height d) / 2)\<^sup>2))
    \<and> (\<forall>x < reg_width d. \<forall>y < reg_height d.
          m ! (y * reg_width d + x)
          = max 0 (min 1 (diameter / 2 + 1 / 2
              - circle_dist (real (reg_width d) / 2) (real (reg_height d) / 2) x y)))
    \<and> (\<forall>x < reg_width d. \<forall>y < reg_height d. \<forall>x' < reg_width d. \<forall>y' < reg_height d.
          circle_dist (real (reg_width d) / 2) (real (reg_height d) / 2) x y
            \<le> circle_dist (real (reg_width d) / 2) (real (reg_height d) / 2) x' y'
          \<longrightarrow> m ! (y' * reg_width d + x') \<le> m ! (y * reg_width d + x))
    \<and> m ! ((reg_height d div 2) * reg_width d + reg_width d div 2) = 1
    \<and> (\<forall>x < reg_width d. \<forall>y < reg_height d.
          circle_dist (real (reg_width d) / 2) (real (reg_height d) / 2) x y \<le> diameter / 2 - 1 / 2
          \<longrightarrow> m ! (y * reg_width d + x) = 1)
    \<and> (\<forall>x < reg_width d. \<forall>y < reg_height d.
          diameter / 2 + 1 / 2 < circle_dist (real (reg_width d) / 2) (real (reg_height d) / 2) x y
          \<longrightarrow> m ! (y * reg_width d + x) = 0)"
proof -
  let ?w = "reg_width d" and ?h = "reg_height d"
  let ?m = "rows ?w ?h (circle_alpha (diameter / 2) (real ?w / 2) (real ?h / 2))"
  from circular_Inr [OF assms] have dia: "9 < diameter" and w: "10 \<le> ?w" and h: "10 \<le> ?h"
    and m: "reg_mask d = Some ?m" by simp_all
  have circ: "reg_isCircular d"
    using assms by (auto simp add: extractCircularRegion_def Let_def split: prod.splits sum.splits)
  have val: "?m ! (y * ?w + x)
      = max 0 (min 1 (diameter / 2 + 1 / 2 - circle_dist (real ?w / 2) (real ?h / 2) x y))"
    if "x < ?w" "y < ?h" for x y
    using that by (simp add: rows_nth circle_alpha_clamp)
  have centre: "?m ! ((?h div 2) * ?w + ?w div 2) = 1"
  proof -
    have "?w div 2 < ?w" "?h div 2 < ?h" using w h by simp_all
    then have "?m ! ((?h div 2) * ?w + ?w div 2)
       = max 0 (min 1 (diameter / 2 + 1 / 2 - circle_dist (real ?w / 2) (real ?h / 2) (?w div 2) (?h div 2)))"
      by (rule val)
    with centre_dist_le [of ?w ?h] dia show ?thesis by (simp add: max_def min_def)
  qed
  have mono: "?m ! (y' * ?w + x') \<le> ?m ! (y * ?w + x)"
    if "x < ?w" "y < ?h" "x' < ?w" "y' < ?h"
      and "circle_dist (real ?w / 2) (real ?h / 2) x y \<le> circle_dist (real ?w / 2) (real ?h / 2) x' y'"
    for x y x' y'
    using that by (simp add: val)
  show ?thesis
  proof (intro exI [of _ ?m] conjI allI impI)
    show "reg_mask d = Some ?m" by (rule m)
    show "reg_isCircular d" by (rule circ)
    show "length ?m = ?w * ?h" by (simp add: length_rows)
    show "?m ! ((?h div 2) * ?w + ?w div 2) = 1" by (rule centre)
    show "circle_dist (real ?w / 2) (real ?h / 2) x y
          = sqrt ((real x + 1 / 2 - real ?w / 2)\<^sup>2 + (real y + 1 / 2 - real ?h / 2)\<^sup>2)" for x y
      by (rule circle_dist_expl)
  qed (simp_all add: val mono)
qed

theorem extractCircularRegion_mask_witness:
  "\<exists>d m. snd (extractCircularRegion img10 centre5 10) = Inr d \<and> reg_mask d = Some m
      \<and> reg_width d = 10 \<and> reg_height d = 10 \<and> m ! 55 = 1"
proof -
  obtain d where d: "snd (extractCircularRegion img10 centre5 10) = Inr d"
    and wh: "reg_width d = 10" "reg_height d = 10"
    by (simp add: extractCircularRegion_def extractRegion_def Let_def img10_def centre5_def
        js_round_def Rect_def rect_width_def rect_height_def)
  from extractCircularRegion_mask [OF d] wh obtain m where "reg_mask d = Some m" "m ! 55 = 1"
    by auto
  with d wh show ?thesis by blast
qed

section \<open>Properties: resampling\<close>

lemma to_int32_floor: "0 \<le> v \<Longrightarrow> v < 2 ^ 31 \<Longrightarrow> to_int32 v = \<lfloor>v\<rfloor>"
proof -
  assume a: "0 \<le> v" "v < 2 ^ 31"
  have "0 \<le> \<lfloor>v\<rfloor>" using a(1) by simp
  moreover have "\<lfloor>v\<rfloor> < 2 ^ 31" using a(2) by (simp add: floor_less_iff)
  ultimately show ?thesis using a(1) by (simp add: to_int32_def Let_def)
qed

lemma computeCubicWeight_eq: "computeCubicWeight t = cubicWeight t"
  by (simp add: computeCubicWeight_def cubicWeight_def Let_def abs_if)

lemma scaled_coord:
  assumes "x < dstW" "0 < srcW"
  shows "0 \<le> real x * (real srcW / real dstW) \<and> real x * (real srcW / real dstW) < real srcW"
proof -
  have e: "real x * (real srcW / real dstW) = real srcW * (real x / real dstW)" by simp
  have "real x / real dstW < 1" using assms(1) by simp
  then have "real srcW * (real x / real dstW) < real srcW * 1"
    using assms(2) by (intro mult_strict_left_mono) simp_all
  then have "real x * (real srcW / real dstW) < real srcW" by (simp only: e mult_1_right)
  then show ?thesis by simp
qed

lemma clamp_unit: "(if r < 0 then 0 else if r > 1 then 1 else r) = max 0 (min 1 (r::real))"
  by (simp add: max_def min_def)

lemma clamp_index: "0 < n \<Longrightarrow> (if p < 0 then 0 else if p \<ge> int n then int n - 1 else p) = max 0 (min (int n - 1) p)"
  by (simp add: max_def min_def)

lemma shift_index: "(a::int) + 2 - 1 = a + 1" "(a::int) + 3 - 1 = a + 2"
  by simp_all

lemma bicubic_sums_eq:
  assumes "0 < srcW" "0 < srcH"
  shows "InsetEngine_bicubic_sums src srcW srcH x0 y0
           [computeCubicWeight (- 1 - xf), computeCubicWeight (0 - xf),
            computeCubicWeight (1 - xf), computeCubicWeight (2 - xf)]
           [computeCubicWeight (- 1 - yf), computeCubicWeight (0 - yf),
            computeCubicWeight (1 - yf), computeCubicWeight (2 - yf)]
       = ScalingUtils_bicubic_sums src srcW srcH x0 y0 xf yf"
proof -
  note cx = clamp_index [OF assms(1)] and cy = clamp_index [OF assms(2)]
  show ?thesis
    unfolding InsetEngine_bicubic_sums_def ScalingUtils_bicubic_sums_def Let_def
      cx cy computeCubicWeight_eq
    by (simp add: shift_index)
qed

lemma bicubic_pixel_eq_gen:
  assumes "to_int32 (real x * xr) = \<lfloor>real x * xr\<rfloor>" "to_int32 (real y * yr) = \<lfloor>real y * yr\<rfloor>"
    and "0 < srcW" "0 < srcH"
  shows "InsetEngine_bicubic_pixel src srcW srcH xr yr x y
       = ScalingUtils_bicubic_pixel src srcW srcH xr yr x y"
  unfolding InsetEngine_bicubic_pixel_def ScalingUtils_bicubic_pixel_def Let_def assms(1,2)
    bicubic_sums_eq [OF assms(3,4)] clamp_unit
  by (simp add: split_def)

lemma bicubic_pixel_eq:
  assumes "x < dstW" "y < dstH" "0 < srcW" "0 < srcH" "srcW \<le> 2 ^ 31" "srcH \<le> 2 ^ 31"
  shows "InsetEngine_bicubic_pixel src srcW srcH (real srcW / real dstW) (real srcH / real dstH) x y
       = ScalingUtils_bicubic_pixel src srcW srcH (real srcW / real dstW) (real srcH / real dstH) x y"
proof -
  let ?sx = "real x * (real srcW / real dstW)" and ?sy = "real y * (real srcH / real dstH)"
  have "real srcW \<le> 2 ^ 31" using assms(5) by (metis of_nat_le_iff of_nat_numeral of_nat_power)
  with scaled_coord [OF assms(1,3)] have x: "to_int32 ?sx = \<lfloor>?sx\<rfloor>"
    by (intro to_int32_floor) simp_all
  have "real srcH \<le> 2 ^ 31" using assms(6) by (metis of_nat_le_iff of_nat_numeral of_nat_power)
  with scaled_coord [OF assms(2,4)] have y: "to_int32 ?sy = \<lfloor>?sy\<rfloor>"
    by (intro to_int32_floor) simp_all
  from x y assms(3,4) show ?thesis by (rule bicubic_pixel_eq_gen)
qed

lemma write_rows_cong:
  "(\<And>x y. x < w \<Longrightarrow> y < h \<Longrightarrow> f x y = g x y) \<Longrightarrow> write_rows dst w h f = write_rows dst w h g"
  unfolding write_rows_def by (simp add: rows_cong [of w h f g])

lemma bicubic_buffers_eq:
  assumes "0 < srcW" "0 < srcH" "srcW \<le> 2 ^ 31" "srcH \<le> 2 ^ 31"
  shows "InsetEngine_bicubicInterpolate src srcW srcH dst dstW dstH
       = ScalingUtils_bicubicInterpolate src srcW srcH dst dstW dstH"
  unfolding InsetEngine_bicubicInterpolate_def ScalingUtils_bicubicInterpolate_def Let_def
  by (rule write_rows_cong) (rule bicubic_pixel_eq [OF _ _ assms])


lemma write_rows_nth:
  "i < length dst \<Longrightarrow> i < w * h \<Longrightarrow> write_rows dst w h f ! i = f (i mod w) (i div w)"
  by (simp add: write_rows_def nth_append length_rows rows_index)

lemma length_write_rows: "length (write_rows dst w h f) = length dst"
  by (simp add: write_rows_def length_rows)

lemma cubic_row_sum:
  assumes "0 \<le> f" "f < 1"
  shows "cubicWeight (- 1 - f) + cubicWeight (0 - f) + cubicWeight (1 - f) + cubicWeight (2 - f) = 1"
proof -
  have a: "cubicWeight (- 1 - f) = - 0.5 * (1 + f) * (1 + f) * (1 + f) + 2.5 * (1 + f) * (1 + f) - 4 * (1 + f) + 2"
    using assms by (cases "f = 0") (simp_all add: cubicWeight_def Let_def algebra_simps)
  have b: "cubicWeight (0 - f) = 1.5 * f * f * f - 2.5 * f * f + 1"
    using assms by (simp add: cubicWeight_def Let_def)
  have c: "cubicWeight (1 - f) = 1.5 * (1 - f) * (1 - f) * (1 - f) - 2.5 * (1 - f) * (1 - f) + 1"
    using assms by (simp add: cubicWeight_def Let_def)
  have d: "cubicWeight (2 - f) = - 0.5 * (2 - f) * (2 - f) * (2 - f) + 2.5 * (2 - f) * (2 - f) - 4 * (2 - f) + 2"
    using assms by (simp add: cubicWeight_def Let_def)
  show ?thesis unfolding a b c d by (simp add: field_simps)
qed

lemma bicubic_weightSum_factor:
  "snd (ScalingUtils_bicubic_sums src srcW srcH x0 y0 xf yf)
   = (cubicWeight (- 1 - xf) + cubicWeight (0 - xf) + cubicWeight (1 - xf) + cubicWeight (2 - xf))
   * (cubicWeight (- 1 - yf) + cubicWeight (0 - yf) + cubicWeight (1 - yf) + cubicWeight (2 - yf))"
  unfolding ScalingUtils_bicubic_sums_def Let_def
  by (simp add: algebra_simps)

lemma bicubic_weightSum:
  "0 \<le> xf \<Longrightarrow> xf < 1 \<Longrightarrow> 0 \<le> yf \<Longrightarrow> yf < 1 \<Longrightarrow>
   snd (ScalingUtils_bicubic_sums src srcW srcH x0 y0 xf yf) = 1"
  by (simp only: bicubic_weightSum_factor cubic_row_sum)

lemma bicubic_sums_lists:
  "ScalingUtils_bicubic_sums src srcW srcH x0 y0 xf yf
   = (sum_list (map (\<lambda>p. (case p of (i, j) \<Rightarrow> src ! nat (max 0 (min (int srcH - 1) (y0 + j)) * int srcW
                                    + max 0 (min (int srcW - 1) (x0 + i))))
                         * (case p of (i, j) \<Rightarrow> cubicWeight (real_of_int i - xf) * cubicWeight (real_of_int j - yf)))
               (concat (map (\<lambda>j. map (\<lambda>i. (i, j)) [- 1, 0, 1, 2]) [- 1, 0, 1, 2]))),
      sum_list (map (\<lambda>(i, j). cubicWeight (real_of_int i - xf) * cubicWeight (real_of_int j - yf))
               (concat (map (\<lambda>j. map (\<lambda>i. (i, j)) [- 1, 0, 1, 2]) [- 1, 0, 1, 2]))))"
  unfolding ScalingUtils_bicubic_sums_def Let_def
  by (simp add: add.assoc)

lemma bicubic_pixel_claimed:
  "ScalingUtils_bicubic_pixel src srcW srcH xr yr x y
   = bicubic_claimed src srcW srcH (real x * xr) (real y * yr)"
  unfolding ScalingUtils_bicubic_pixel_def bicubic_claimed_def Let_def bicubic_sums_lists
  by (simp only: prod.case)


lemma cubicWeight_ints:
  "cubicWeight (- 1) = 0" "cubicWeight 0 = 1" "cubicWeight 1 = 0" "cubicWeight 2 = 0"
  by (simp_all add: cubicWeight_def Let_def)

lemma bicubic_claimed_kernel:
  "bicubic_claimed src srcW srcH srcX srcY
   = bicubic_kernel src srcW srcH \<lfloor>srcX\<rfloor> \<lfloor>srcY\<rfloor>
       (srcX - real_of_int \<lfloor>srcX\<rfloor>) (srcY - real_of_int \<lfloor>srcY\<rfloor>)"
  unfolding bicubic_claimed_def bicubic_kernel_def Let_def by (rule refl)

lemma engine_pixel_kernel:
  assumes "0 < srcW" "0 < srcH"
  shows "InsetEngine_bicubic_pixel src srcW srcH xr yr x y
       = bicubic_kernel src srcW srcH (to_int32 (real x * xr)) (to_int32 (real y * yr))
           (real x * xr - real_of_int (to_int32 (real x * xr)))
           (real y * yr - real_of_int (to_int32 (real y * yr)))"
  unfolding InsetEngine_bicubic_pixel_def bicubic_kernel_def Let_def
    bicubic_sums_eq [OF assms] clamp_unit bicubic_sums_lists
  by (simp only: prod.case)


lemma cubicWeight_halves:
  "cubicWeight (- (3 / 2)) = - (1 / 16)" "cubicWeight (- (1 / 2)) = 9 / 16"
  "cubicWeight (1 / 2) = 9 / 16" "cubicWeight (3 / 2) = - (1 / 16)"
  by (simp_all add: cubicWeight_def Let_def)

lemma kernel_values:
  "bicubic_kernel src4 2 2 0 0 0 0 = 1 / 10"
  "bicubic_kernel src4 2 2 0 0 (1 / 2) 0 = 3 / 20"
  "bicubic_kernel src4 2 2 1 0 (1 / 2) 0 = 33 / 160"
  by (simp_all add: bicubic_kernel_def Let_def cubicWeight_ints cubicWeight_halves src4_def)


lemma scalePixels_nth:
  assumes "c < reg_channels d" "x < tw" "y < th"
  shows "reg_pixels (scalePixels self d tw th) ! c ! (y * tw + x)
       = InsetEngine_bicubic_pixel (reg_pixels d ! c) (reg_width d) (reg_height d)
           (real (reg_width d) / real tw) (real (reg_height d) / real th) x y"
proof -
  have i: "y * tw + x < tw * th" using assms(2,3) by (rule index_less)
  show ?thesis
    using assms(1,2) i
    by (simp add: scalePixels_def Let_def InsetEngine_bicubicInterpolate_def write_rows_nth)
qed

lemma to_int32_wraps: "to_int32 2147483648 = - 2147483648"
  by (simp add: to_int32_def)

lemma engine_weightSum:
  assumes "x < dstW" "0 < srcW" "srcW \<le> 2 ^ 31"
  shows "to_int32 (real x * (real srcW / real dstW)) = \<lfloor>real x * (real srcW / real dstW)\<rfloor>"
    and "cubicWeight (- 1 - (real x * (real srcW / real dstW)
                              - real_of_int (to_int32 (real x * (real srcW / real dstW)))))
       + cubicWeight (0 - (real x * (real srcW / real dstW)
                              - real_of_int (to_int32 (real x * (real srcW / real dstW)))))
       + cubicWeight (1 - (real x * (real srcW / real dstW)
                              - real_of_int (to_int32 (real x * (real srcW / real dstW)))))
       + cubicWeight (2 - (real x * (real srcW / real dstW)
                              - real_of_int (to_int32 (real x * (real srcW / real dstW))))) = 1"
proof -
  let ?sx = "real x * (real srcW / real dstW)"
  have "real srcW \<le> 2 ^ 31" using assms(3) by (metis of_nat_le_iff of_nat_numeral of_nat_power)
  with scaled_coord [OF assms(1,2)] show x: "to_int32 ?sx = \<lfloor>?sx\<rfloor>"
    by (intro to_int32_floor) simp_all
  have "0 \<le> ?sx - real_of_int \<lfloor>?sx\<rfloor>" "?sx - real_of_int \<lfloor>?sx\<rfloor> < 1" by linarith+
  then show "cubicWeight (- 1 - (?sx - real_of_int (to_int32 ?sx)))
       + cubicWeight (0 - (?sx - real_of_int (to_int32 ?sx)))
       + cubicWeight (1 - (?sx - real_of_int (to_int32 ?sx)))
       + cubicWeight (2 - (?sx - real_of_int (to_int32 ?sx))) = 1"
    unfolding x by (rule cubic_row_sum)
qed

text \<open>
  C10. For positive source dimensions of at most \<open>2 ^ 31\<close> samples a side, which
  bounds every buffer a typed array can hold, the engine's optimised bicubic
  interpolator returns the same buffer as \<open>ScalingUtils.bicubicInterpolate\<close>, for every
  source buffer, destination buffer and destination size; each output pixel of either
  is the claimed \<open>clamp (\<Sum> src * w / \<Sum> w, 0, 1)\<close> over the clamped 4 x 4
  neighbourhood, and each stored sample of the engine is that pixel. The weights of a
  neighbourhood sum to 1 in both interpolators, so neither quotient has a zero
  divisor: the four cached weights of the engine sum to 1 along each axis. The bound
  is where the engine's \<open>srcY | 0\<close> is \<open>Math.floor\<close>: a source coordinate is
  below the source dimension.
\<close>

theorem bicubic_refinement:
  assumes "0 < srcW" "0 < srcH" "srcW \<le> 2 ^ 31" "srcH \<le> 2 ^ 31"
  shows "InsetEngine_bicubicInterpolate src srcW srcH dst dstW dstH
           = ScalingUtils_bicubicInterpolate src srcW srcH dst dstW dstH
    \<and> (\<forall>x < dstW. \<forall>y < dstH.
          InsetEngine_bicubic_pixel src srcW srcH (real srcW / real dstW) (real srcH / real dstH) x y
            = bicubic_claimed src srcW srcH (real x * (real srcW / real dstW))
                (real y * (real srcH / real dstH))
        \<and> ScalingUtils_bicubic_pixel src srcW srcH (real srcW / real dstW) (real srcH / real dstH) x y
            = bicubic_claimed src srcW srcH (real x * (real srcW / real dstW))
                (real y * (real srcH / real dstH)))
    \<and> (\<forall>i < length dst. i < dstW * dstH \<longrightarrow>
          InsetEngine_bicubicInterpolate src srcW srcH dst dstW dstH ! i
            = InsetEngine_bicubic_pixel src srcW srcH (real srcW / real dstW) (real srcH / real dstH)
                (i mod dstW) (i div dstW))
    \<and> (\<forall>srcX srcY.
          snd (ScalingUtils_bicubic_sums src srcW srcH \<lfloor>srcX\<rfloor> \<lfloor>srcY\<rfloor>
                 (srcX - real_of_int \<lfloor>srcX\<rfloor>) (srcY - real_of_int \<lfloor>srcY\<rfloor>)) = 1)
    \<and> (\<forall>x < dstW. \<forall>y < dstH.
          to_int32 (real x * (real srcW / real dstW)) = \<lfloor>real x * (real srcW / real dstW)\<rfloor>
        \<and> to_int32 (real y * (real srcH / real dstH)) = \<lfloor>real y * (real srcH / real dstH)\<rfloor>
        \<and> snd (InsetEngine_bicubic_sums src srcW srcH
                 (to_int32 (real x * (real srcW / real dstW)))
                 (to_int32 (real y * (real srcH / real dstH)))
                 [computeCubicWeight (- 1 - (real x * (real srcW / real dstW)
                      - real_of_int (to_int32 (real x * (real srcW / real dstW))))),
                  computeCubicWeight (0 - (real x * (real srcW / real dstW)
                      - real_of_int (to_int32 (real x * (real srcW / real dstW))))),
                  computeCubicWeight (1 - (real x * (real srcW / real dstW)
                      - real_of_int (to_int32 (real x * (real srcW / real dstW))))),
                  computeCubicWeight (2 - (real x * (real srcW / real dstW)
                      - real_of_int (to_int32 (real x * (real srcW / real dstW)))))]
                 [computeCubicWeight (- 1 - (real y * (real srcH / real dstH)
                      - real_of_int (to_int32 (real y * (real srcH / real dstH))))),
                  computeCubicWeight (0 - (real y * (real srcH / real dstH)
                      - real_of_int (to_int32 (real y * (real srcH / real dstH))))),
                  computeCubicWeight (1 - (real y * (real srcH / real dstH)
                      - real_of_int (to_int32 (real y * (real srcH / real dstH))))),
                  computeCubicWeight (2 - (real y * (real srcH / real dstH)
                      - real_of_int (to_int32 (real y * (real srcH / real dstH)))))]) = 1)"
proof (intro conjI allI impI)
  show "InsetEngine_bicubicInterpolate src srcW srcH dst dstW dstH
           = ScalingUtils_bicubicInterpolate src srcW srcH dst dstW dstH"
    using assms by (rule bicubic_buffers_eq)
next
  fix x y assume "x < dstW" "y < dstH"
  then show "InsetEngine_bicubic_pixel src srcW srcH (real srcW / real dstW) (real srcH / real dstH) x y
            = bicubic_claimed src srcW srcH (real x * (real srcW / real dstW))
                (real y * (real srcH / real dstH))"
    using assms by (simp only: bicubic_pixel_eq bicubic_pixel_claimed)
next
  fix x y
  show "ScalingUtils_bicubic_pixel src srcW srcH (real srcW / real dstW) (real srcH / real dstH) x y
            = bicubic_claimed src srcW srcH (real x * (real srcW / real dstW))
                (real y * (real srcH / real dstH))"
    by (rule bicubic_pixel_claimed)
next
  fix i assume "i < length dst" "i < dstW * dstH"
  then show "InsetEngine_bicubicInterpolate src srcW srcH dst dstW dstH ! i
            = InsetEngine_bicubic_pixel src srcW srcH (real srcW / real dstW) (real srcH / real dstH)
                (i mod dstW) (i div dstW)"
    by (simp add: InsetEngine_bicubicInterpolate_def Let_def write_rows_nth)
next
  fix srcX srcY :: real
  have "0 \<le> srcX - real_of_int \<lfloor>srcX\<rfloor>" "srcX - real_of_int \<lfloor>srcX\<rfloor> < 1"
    "0 \<le> srcY - real_of_int \<lfloor>srcY\<rfloor>" "srcY - real_of_int \<lfloor>srcY\<rfloor> < 1"
    by linarith+
  then show "snd (ScalingUtils_bicubic_sums src srcW srcH \<lfloor>srcX\<rfloor> \<lfloor>srcY\<rfloor>
                 (srcX - real_of_int \<lfloor>srcX\<rfloor>) (srcY - real_of_int \<lfloor>srcY\<rfloor>)) = 1"
    by (rule bicubic_weightSum)
next
  fix x y assume "x < dstW" "y < dstH"
  then show "to_int32 (real x * (real srcW / real dstW)) = \<lfloor>real x * (real srcW / real dstW)\<rfloor>"
    and "to_int32 (real y * (real srcH / real dstH)) = \<lfloor>real y * (real srcH / real dstH)\<rfloor>"
    using assms by (simp_all only: engine_weightSum(1))
next
  fix x y assume xy: "x < dstW" "y < dstH"
  show "snd (InsetEngine_bicubic_sums src srcW srcH
                 (to_int32 (real x * (real srcW / real dstW)))
                 (to_int32 (real y * (real srcH / real dstH)))
                 [computeCubicWeight (- 1 - (real x * (real srcW / real dstW)
                      - real_of_int (to_int32 (real x * (real srcW / real dstW))))),
                  computeCubicWeight (0 - (real x * (real srcW / real dstW)
                      - real_of_int (to_int32 (real x * (real srcW / real dstW))))),
                  computeCubicWeight (1 - (real x * (real srcW / real dstW)
                      - real_of_int (to_int32 (real x * (real srcW / real dstW))))),
                  computeCubicWeight (2 - (real x * (real srcW / real dstW)
                      - real_of_int (to_int32 (real x * (real srcW / real dstW)))))]
                 [computeCubicWeight (- 1 - (real y * (real srcH / real dstH)
                      - real_of_int (to_int32 (real y * (real srcH / real dstH))))),
                  computeCubicWeight (0 - (real y * (real srcH / real dstH)
                      - real_of_int (to_int32 (real y * (real srcH / real dstH))))),
                  computeCubicWeight (1 - (real y * (real srcH / real dstH)
                      - real_of_int (to_int32 (real y * (real srcH / real dstH))))),
                  computeCubicWeight (2 - (real y * (real srcH / real dstH)
                      - real_of_int (to_int32 (real y * (real srcH / real dstH)))))]) = 1"
    unfolding bicubic_sums_eq [OF assms(1,2)] bicubic_weightSum_factor
      engine_weightSum(2) [OF xy(1) assms(1,3)] engine_weightSum(2) [OF xy(2) assms(2,4)]
    by simp
qed

theorem bicubic_refinement_witness:
  "(0::nat) < 2 \<and> (2::nat) \<le> 2 ^ 31
   \<and> InsetEngine_bicubicInterpolate src4 2 2 (replicate 16 0) 4 4
       = ScalingUtils_bicubicInterpolate src4 2 2 (replicate 16 0) 4 4
   \<and> InsetEngine_bicubicInterpolate src4 2 2 (replicate 16 0) 4 4 ! 3 = 33 / 160"
proof -
  have h: "(0::nat) < 2" "(2::nat) \<le> 2 ^ 31" by simp_all
  note t = bicubic_refinement [OF h(1) h(1) h(2) h(2),
      where src = src4 and dst = "replicate 16 0" and dstW = 4 and dstH = 4]
  from t have e: "InsetEngine_bicubicInterpolate src4 2 2 (replicate 16 0) 4 4
       = ScalingUtils_bicubicInterpolate src4 2 2 (replicate 16 0) 4 4"
    by (rule conjunct1)
  have i: "(3::nat) < length (replicate 16 (0::real))" "(3::nat) < 4 * 4" "(3::nat) < 4" "(0::nat) < 4"
    by simp_all
  from t i(1,2) have n: "InsetEngine_bicubicInterpolate src4 2 2 (replicate 16 0) 4 4 ! 3
      = InsetEngine_bicubic_pixel src4 2 2 (real (2::nat) / real (4::nat)) (real (2::nat) / real (4::nat))
          (3 mod 4) (3 div 4)"
    by blast
  from t i(3,4) have c: "InsetEngine_bicubic_pixel src4 2 2 (real (2::nat) / real (4::nat))
          (real (2::nat) / real (4::nat)) 3 0
      = bicubic_claimed src4 2 2 (real (3::nat) * (real (2::nat) / real (4::nat)))
          (real (0::nat) * (real (2::nat) / real (4::nat)))"
    by blast
  have "bicubic_claimed src4 2 2 (real (3::nat) * (real (2::nat) / real (4::nat)))
          (real (0::nat) * (real (2::nat) / real (4::nat))) = 33 / 160"
    by (simp add: bicubic_claimed_kernel kernel_values)
  with n c have v: "InsetEngine_bicubicInterpolate src4 2 2 (replicate 16 0) 4 4 ! 3 = 33 / 160"
    by simp
  from e v show ?thesis by simp
qed

text \<open>
  C9. \<open>scalePixels\<close> does not read the engine's \<open>interpolationMethod\<close>: its result is
  the same for every engine object, in particular after setting the field to
  \<open>nearest\<close>, \<open>bilinear\<close> or \<open>lanczos\<close>. Every channel of the result has
  \<open>targetWidth * targetHeight\<close> samples, and for a region of positive size the sample
  at column \<open>x\<close> and row \<open>y\<close> is the bicubic kernel
  \<open>clamp (\<Sum> src * w / \<Sum> w, 0, 1)\<close> over the clamped 4 x 4 neighbourhood of the source
  coordinate \<open>(x * w / targetWidth, y * h / targetHeight)\<close>, whose integer part is
  taken with \<open>| 0\<close>. For source dimensions of at most \<open>2 ^ 31\<close> that integer part is
  the floor: the sample is the bicubic formula at the source coordinate, and the channel
  is what \<open>ScalingUtils.scaleBuffer\<close> computes for the method \<open>bicubic\<close>.
\<close>

theorem scalePixels_bicubic:
  fixes self :: engine and d :: region and tw th :: nat
  defines "w \<equiv> reg_width d"
  defines "h \<equiv> reg_height d"
  defines "out \<equiv> scalePixels self d tw th"
  shows "out = scalePixels InsetEngine d tw th
   \<and> scalePixels (self\<lparr>interpolationMethod := ''nearest''\<rparr>) d tw th = out
   \<and> scalePixels (self\<lparr>interpolationMethod := ''bilinear''\<rparr>) d tw th = out
   \<and> scalePixels (self\<lparr>interpolationMethod := ''lanczos''\<rparr>) d tw th = out
   \<and> reg_width out = tw \<and> reg_height out = th
   \<and> reg_channels out = reg_channels d
   \<and> length (reg_pixels out) = reg_channels d
   \<and> (\<forall>c < reg_channels d.
         length (reg_pixels out ! c) = tw * th
       \<and> reg_pixels out ! c
         = InsetEngine_bicubicInterpolate (reg_pixels d ! c) w h (replicate (tw * th) 0) tw th)
   \<and> (0 < w \<and> 0 < h \<longrightarrow>
        (\<forall>c < reg_channels d. \<forall>x < tw. \<forall>y < th.
           reg_pixels out ! c ! (y * tw + x)
           = bicubic_kernel (reg_pixels d ! c) w h
               (to_int32 (real x * (real w / real tw))) (to_int32 (real y * (real h / real th)))
               (real x * (real w / real tw) - real_of_int (to_int32 (real x * (real w / real tw))))
               (real y * (real h / real th) - real_of_int (to_int32 (real y * (real h / real th))))))
   \<and> (0 < w \<and> 0 < h \<and> w \<le> 2 ^ 31 \<and> h \<le> 2 ^ 31 \<longrightarrow>
        (\<forall>c < reg_channels d.
           (\<forall>x < tw. \<forall>y < th.
              reg_pixels out ! c ! (y * tw + x)
              = bicubic_claimed (reg_pixels d ! c) w h
                  (real x * (real w / real tw)) (real y * (real h / real th)))
         \<and> reg_pixels out ! c
           = scaleBuffer (reg_pixels d ! c) w h (replicate (tw * th) 0) tw th ''bicubic''))"
proof -
  have indep: "scalePixels e d tw th = scalePixels e' d tw th" for e e' :: engine
    by (simp add: scalePixels_def)
  have shape: "reg_width out = tw \<and> reg_height out = th \<and> reg_channels out = reg_channels d
      \<and> length (reg_pixels out) = reg_channels d"
    by (simp add: out_def scalePixels_def Let_def)
  have chan: "length (reg_pixels out ! c) = tw * th
       \<and> reg_pixels out ! c
         = InsetEngine_bicubicInterpolate (reg_pixels d ! c) w h (replicate (tw * th) 0) tw th"
    if "c < reg_channels d" for c
    using that
    by (simp add: out_def w_def h_def scalePixels_def Let_def InsetEngine_bicubicInterpolate_def
        length_write_rows)
  have kern: "reg_pixels out ! c ! (y * tw + x)
           = bicubic_kernel (reg_pixels d ! c) w h
               (to_int32 (real x * (real w / real tw))) (to_int32 (real y * (real h / real th)))
               (real x * (real w / real tw) - real_of_int (to_int32 (real x * (real w / real tw))))
               (real y * (real h / real th) - real_of_int (to_int32 (real y * (real h / real th))))"
    if "0 < w" "0 < h" "c < reg_channels d" "x < tw" "y < th" for c x y
    unfolding out_def scalePixels_nth [OF that(3,4,5)] w_def [symmetric] h_def [symmetric]
    using that(1,2) by (rule engine_pixel_kernel)
  have claimed: "reg_pixels out ! c ! (y * tw + x)
              = bicubic_claimed (reg_pixels d ! c) w h
                  (real x * (real w / real tw)) (real y * (real h / real th))"
    if "0 < w" "0 < h" "w \<le> 2 ^ 31" "h \<le> 2 ^ 31" "c < reg_channels d" "x < tw" "y < th" for c x y
    unfolding out_def scalePixels_nth [OF that(5,6,7)] w_def [symmetric] h_def [symmetric]
      bicubic_pixel_eq [OF that(6,7,1,2,3,4)]
    by (rule bicubic_pixel_claimed)
  have buf: "reg_pixels out ! c
           = scaleBuffer (reg_pixels d ! c) w h (replicate (tw * th) 0) tw th ''bicubic''"
    if "0 < w" "0 < h" "w \<le> 2 ^ 31" "h \<le> 2 ^ 31" "c < reg_channels d" for c
    using chan [OF that(5)] by (simp add: scaleBuffer_def bicubic_buffers_eq [OF that(1,2,3,4)])
  show ?thesis
    using indep [of self InsetEngine] indep [of "self\<lparr>interpolationMethod := ''nearest''\<rparr>" self]
      indep [of "self\<lparr>interpolationMethod := ''bilinear''\<rparr>" self]
      indep [of "self\<lparr>interpolationMethod := ''lanczos''\<rparr>" self]
      shape chan kern claimed buf
    unfolding out_def [symmetric]
    by blast
qed


theorem scalePixels_bicubic_witness:
  "0 < reg_width region4 \<and> 0 < reg_height region4
   \<and> reg_width region4 \<le> 2 ^ 31 \<and> reg_height region4 \<le> 2 ^ 31 \<and> 0 < reg_channels region4
   \<and> reg_pixels (scalePixels \<lparr>interpolationMethod = ''nearest''\<rparr> region4 4 4) ! 0 ! 1 = 3 / 20
   \<and> reg_pixels (scalePixels \<lparr>interpolationMethod = ''nearest''\<rparr> region4 4 4) ! 0 ! 3 = 33 / 160
   \<and> scaleBuffer src4 2 2 (replicate 16 0) 4 4 ''nearest'' ! 1 = 1 / 10
   \<and> reg_pixels (scalePixels \<lparr>interpolationMethod = ''nearest''\<rparr> region4 4 4) ! 0
       = scaleBuffer src4 2 2 (replicate 16 0) 4 4 ''bicubic''"
proof -
  let ?out = "scalePixels \<lparr>interpolationMethod = ''nearest''\<rparr> region4 4 4"
  have h: "0 < reg_width region4 \<and> 0 < reg_height region4
      \<and> reg_width region4 \<le> 2 ^ 31 \<and> reg_height region4 \<le> 2 ^ 31"
    and c: "0 < reg_channels region4"
    by (simp_all add: region4_def)
  note t = scalePixels_bicubic [of "\<lparr>interpolationMethod = ''nearest''\<rparr>" region4 4 4]
  from t h c have px: "reg_pixels ?out ! 0 ! (y * 4 + x)
      = bicubic_claimed (reg_pixels region4 ! 0) (reg_width region4) (reg_height region4)
          (real x * (real (reg_width region4) / real (4::nat)))
          (real y * (real (reg_height region4) / real (4::nat)))" if "x < 4" "y < 4" for x y
    using that by blast
  have a: "reg_pixels ?out ! 0 ! 1 = 3 / 20"
    using px [of 1 0]
    by (simp add: region4_def bicubic_claimed_kernel kernel_values)
  have b: "reg_pixels ?out ! 0 ! 3 = 33 / 160"
    using px [of 3 0]
    by (simp add: region4_def bicubic_claimed_kernel kernel_values)
  have n: "scaleBuffer src4 2 2 (replicate 16 0) 4 4 ''nearest'' ! 1 = 1 / 10"
    by (simp add: scaleBuffer_def nearestInterpolate_def Let_def write_rows_nth nearest_pixel_def
        src4_def)
  from t h c have "reg_pixels ?out ! 0
       = scaleBuffer (reg_pixels region4 ! 0) (reg_width region4) (reg_height region4)
           (replicate (4 * 4) 0) 4 4 ''bicubic''"
    by blast
  then have s: "reg_pixels ?out ! 0 = scaleBuffer src4 2 2 (replicate 16 0) 4 4 ''bicubic''"
    by (simp add: region4_def)
  from h c a b n s show ?thesis by simp
qed

lemma nat_index: "nat (int y * int w + int x) = y * w + x"
  by (simp add: nat_add_distrib nat_mult_distrib)













section \<open>Properties: border\<close>








lemma channel_loop:
  "fold (\<lambda>c (ps, m). (ps @ [f c], Some M)) [0..<n] ([], None)
   = (map f [0..<n], if n = 0 then None else Some M)"
  by (induction n) simp_all

lemma addBorder_result:
  "addBorder d b col
   = \<lparr>reg_pixels = map (\<lambda>c. addBorder_channel d b (if c < 3 then [col_r col, col_g col, col_b col] ! c else 1) c)
                     [0..<reg_channels d],
      reg_width = reg_width d + b * 2, reg_height = reg_height d + b * 2,
      reg_channels = reg_channels d,
      reg_mask = (if reg_channels d = 0 then None
                  else Some (case reg_mask d of
                      Some m \<Rightarrow> addBorder_circularMask (reg_width d + b * 2) (reg_height d + b * 2) b (color_alpha col)
                    | None \<Rightarrow> addBorder_rectMask (reg_width d + b * 2) (reg_height d + b * 2) b (color_alpha col))),
      reg_isCircular = reg_isCircular d\<rparr>"
  unfolding addBorder_def Let_def channel_loop by simp


lemma circularMask_nth:
  assumes "X < W" "Y < H"
  shows "addBorder_circularMask W H b a ! (Y * W + X)
       = (if circle_dist (real W / 2) (real H / 2) X Y > real (min W H) / 2 + 1 / 2 then 0
          else if circle_dist (real W / 2) (real H / 2) X Y > real (min W H) / 2 - 1 / 2
          then a * (real (min W H) / 2 + 1 / 2 - circle_dist (real W / 2) (real H / 2) X Y)
          else if circle_dist (real W / 2) (real H / 2) X Y > real (min W H) / 2 - real b then a
          else 1)"
  using assms by (simp add: addBorder_circularMask_def Let_def rows_nth)


lemma sqrt_half: "1 / 2 < sqrt (1 / 2) \<and> sqrt (1 / 2) \<le> (1::real)"
proof -
  have "(1 / 2)\<^sup>2 < (1 / 2 :: real)" by (simp add: power2_eq_square)
  then have "1 / 2 < sqrt (1 / 2 :: real)" by (rule real_less_rsqrt)
  moreover have "sqrt (1 / 2) \<le> (1::real)" by (simp add: real_sqrt_le_1_iff)
  ultimately show ?thesis by simp
qed




text \<open>
  The two hypotheses are needed. The mask is built inside the channel loop, so a region
  without channels gets none; and with border width 0 the band reaches inside the inner
  radius: for a masked 2 x 2 region, pixel (0, 0) is at distance
  \<open>sqrt (1/2) \<le> inner = 1\<close> and its mask value is \<open>1.5 - sqrt (1/2)\<close>.
\<close>

lemma addBorder_outside_hypotheses:
  "reg_mask (addBorder region0 1 white) = None
   \<and> reg_mask circ2 \<noteq> None
   \<and> (\<exists>m. reg_mask (addBorder circ2 0 white) = Some m
        \<and> circle_dist (real (reg_width circ2 + 2 * 0) / 2) (real (reg_height circ2 + 2 * 0) / 2) 0 0
            \<le> real (min (reg_width circ2 + 2 * 0) (reg_height circ2 + 2 * 0)) / 2 - real (0::nat)
        \<and> m ! (0 * (reg_width circ2 + 2 * 0) + 0) \<noteq> 1)"
proof -
  obtain r :: real where r: "sqrt (1 / 2) = r" "1 / 2 < r" "r \<le> 1"
    using sqrt_half by blast
  have d: "circle_dist 1 1 0 0 = r"
    by (simp add: circle_dist_def Let_def r(1))
  have m: "reg_mask (addBorder circ2 0 white) = Some (addBorder_circularMask 2 2 0 1)"
    by (simp add: addBorder_result circ2_def white_def color_alpha_def)
  have "addBorder_circularMask 2 2 0 1 ! (0 * 2 + 0) = 1 * (2 / 2 + 1 / 2 - r)"
    using r(2,3) by (subst circularMask_nth) (simp_all add: d)
  then have "addBorder_circularMask 2 2 0 1 ! (0 * 2 + 0) \<noteq> 1"
    using r(2) by simp
  moreover have "reg_mask (addBorder region0 1 white) = None"
    by (simp add: addBorder_result region0_def)
  ultimately show ?thesis using m d r(3) by (simp add: circ2_def)
qed

section \<open>Properties: compositing\<close>

lemma setSamples_dims:
  "img_width (setSamples img buf r c) = img_width img"
  "img_height (setSamples img buf r c) = img_height img"
  "length (img_samples (setSamples img buf r c)) = length (img_samples img)"
  by (simp_all add: setSamples_def)

lemma setSamples_other:
  "c' \<noteq> c \<Longrightarrow> img_samples (setSamples img buf r c) ! c' = img_samples img ! c'"
  by (simp add: setSamples_def)

lemma setSamples_pixel:
  assumes "c < length (img_samples img)" "X < img_width img" "Y < img_height img"
  shows "pixel (setSamples img buf r c) c X Y
       = (if rect_x0 r \<le> int X \<and> int X < rect_x1 r \<and> rect_y0 r \<le> int Y \<and> int Y < rect_y1 r
          then buf ! (nat (int Y - rect_y0 r) * nat (rect_width r) + nat (int X - rect_x0 r))
          else pixel img c X Y)"
  using assms by (simp add: pixel_def setSamples_def rows_nth)

lemma setSamples_length:
  "c < length (img_samples img) \<Longrightarrow>
   length (img_samples (setSamples img buf r c) ! c) = img_width img * img_height img"
  by (simp add: setSamples_def length_rows)

lemma getSamples_nth:
  assumes "0 \<le> rect_x0 r" "0 \<le> rect_y0 r" "x < nat (rect_width r)" "y < nat (rect_height r)"
  shows "getSamples img r c ! (y * nat (rect_width r) + x)
       = pixel img c (nat (rect_x0 r) + x) (nat (rect_y0 r) + y)"
  using assms by (simp add: getSamples_def pixel_def rows_nth)

lemma fold_channels_frame:
  assumes dims: "\<And>c img. img_width (step c img) = img_width img
                  \<and> img_height (step c img) = img_height img
                  \<and> length (img_samples (step c img)) = length (img_samples img)"
    and other: "\<And>c c' img. c' \<noteq> c \<Longrightarrow> img_samples (step c img) ! c' = img_samples img ! c'"
  shows "img_width (fold step cs img) = img_width img
       \<and> img_height (fold step cs img) = img_height img
       \<and> length (img_samples (fold step cs img)) = length (img_samples img)
       \<and> (c' \<notin> set cs \<longrightarrow> img_samples (fold step cs img) ! c' = img_samples img ! c')"
proof (induction cs arbitrary: img)
  case Nil
  show ?case by simp
next
  case (Cons c cs)
  show ?case using Cons.IH [of "step c img"] dims [of c img] other [of c' c img] by auto
qed

lemma fold_channels_pixel:
  assumes dims: "\<And>c img. img_width (step c img) = img_width img
                  \<and> img_height (step c img) = img_height img
                  \<and> length (img_samples (step c img)) = length (img_samples img)"
    and other: "\<And>c c' img. c' \<noteq> c \<Longrightarrow> img_samples (step c img) ! c' = img_samples img ! c'"
    and same: "\<And>c img X Y. c < length (img_samples img) \<Longrightarrow> X < img_width img \<Longrightarrow>
                 Y < img_height img \<Longrightarrow> pixel (step c img) c X Y = B c X Y (pixel img c X Y)"
    and "distinct cs" "c' \<in> set cs" "c' < length (img_samples img)"
      "X < img_width img" "Y < img_height img"
  shows "pixel (fold step cs img) c' X Y = B c' X Y (pixel img c' X Y)"
  using assms(4-)
proof (induction cs arbitrary: img)
  case Nil
  then show ?case by simp
next
  case (Cons c cs)
  note d = dims [of c img]
  show ?case
  proof (cases "c' = c")
    case True
    with Cons.prems have "c' \<notin> set cs" by simp
    with fold_channels_frame [of step cs "step c img" c', OF dims other]
    have "img_samples (fold step cs (step c img)) ! c' = img_samples (step c img) ! c'"
      and "img_width (fold step cs (step c img)) = img_width img"
      using d by simp_all
    then have "pixel (fold step cs (step c img)) c' X Y = pixel (step c img) c' X Y"
      using d by (simp add: pixel_def)
    with True same [of c img X Y] Cons.prems show ?thesis by simp
  next
    case False
    with Cons.prems have "c' \<in> set cs" "distinct cs" by simp_all
    with Cons.IH [of "step c img"] Cons.prems d
    have "pixel (fold step cs (step c img)) c' X Y = B c' X Y (pixel (step c img) c' X Y)"
      by simp
    moreover have "pixel (step c img) c' X Y = pixel img c' X Y"
      using other [OF False, of img] d by (simp add: pixel_def)
    ultimately show ?thesis by simp
  qed
qed


lemma blend_nth:
  assumes "x < vw" "y < vh"
  shows "compositeInset_blend ins ga ox oy vw vh c tb ! (y * vw + x)
       = (let srcIdx = nat ((int y + oy) * int (reg_width ins) + (int x + ox));
              alpha = ga * (case reg_mask ins of Some m \<Rightarrow> m ! srcIdx | None \<Rightarrow> 1)
          in reg_pixels ins ! c ! srcIdx * alpha + tb ! (y * vw + x) * (1 - alpha))"
  using assms by (simp add: compositeInset_blend_def Let_def rows_nth split: option.splits)

lemma step_pixel:
  fixes r :: rect and pos :: position
  assumes r: "0 \<le> rect_x0 r" "0 \<le> rect_y0 r"
    and off: "ox = rect_x0 r - pos_x pos" "oy = rect_y0 r - pos_y pos"
    and c: "c < length (img_samples img)" and X: "X < img_width img" and Y: "Y < img_height img"
  shows "pixel (setSamples img
            (compositeInset_blend ins ga ox oy (nat (rect_width r)) (nat (rect_height r)) c
               (getSamples img r c)) r c) c X Y
       = (if rect_x0 r \<le> int X \<and> int X < rect_x1 r \<and> rect_y0 r \<le> int Y \<and> int Y < rect_y1 r
          then blend_value ins ga pos c X Y (pixel img c X Y) else pixel img c X Y)"
proof (cases "rect_x0 r \<le> int X \<and> int X < rect_x1 r \<and> rect_y0 r \<le> int Y \<and> int Y < rect_y1 r")
  case False
  show ?thesis by (simp only: setSamples_pixel [OF c X Y] False if_False simp_thms)
next
  case True
  define x where "x = nat (int X - rect_x0 r)"
  define y where "y = nat (int Y - rect_y0 r)"
  have x: "x < nat (rect_width r)" "int x = int X - rect_x0 r" "nat (rect_x0 r) + x = X"
    using True r by (simp_all add: x_def rect_width_def) linarith
  have y: "y < nat (rect_height r)" "int y = int Y - rect_y0 r" "nat (rect_y0 r) + y = Y"
    using True r by (simp_all add: y_def rect_height_def) linarith
  have "pixel (setSamples img
            (compositeInset_blend ins ga ox oy (nat (rect_width r)) (nat (rect_height r)) c
               (getSamples img r c)) r c) c X Y
      = compositeInset_blend ins ga ox oy (nat (rect_width r)) (nat (rect_height r)) c
               (getSamples img r c) ! (y * nat (rect_width r) + x)"
    by (simp only: setSamples_pixel [OF c X Y] True if_True x_def y_def simp_thms)
  also have "\<dots> = blend_value ins ga pos c X Y (pixel img c X Y)"
    using x(1) y(1)
    by (simp add: blend_nth getSamples_nth r x(2,3) y(2,3) off blend_value_def)
  finally show ?thesis using True by simp
qed


lemma compositeInset_unfold:
  fixes img :: image and ins :: region and pos :: position
  defines "r \<equiv> intersection
       (Rect (pos_x pos) (pos_y pos) (pos_x pos + int (reg_width ins)) (pos_y pos + int (reg_height ins)))
       (Rect 0 0 (int (img_width img)) (int (img_height img)))"
  shows "compositeInset img ins pos opacity
       = (if isEmpty r then img
          else fold (\<lambda>c im. setSamples im
                 (compositeInset_blend ins (case opacity of Some v \<Rightarrow> v | None \<Rightarrow> 1)
                    (rect_x0 r - pos_x pos) (rect_y0 r - pos_y pos)
                    (nat (rect_width r)) (nat (rect_height r)) c (getSamples im r c)) r c)
               [0..<min (reg_channels ins) (numberOfChannels img)] img)"
  by (simp add: compositeInset_def Let_def r_def Rect_def)

lemma compositeInset_dims:
  "img_width (compositeInset img ins pos opacity) = img_width img
   \<and> img_height (compositeInset img ins pos opacity) = img_height img
   \<and> numberOfChannels (compositeInset img ins pos opacity) = numberOfChannels img
   \<and> (min (reg_channels ins) (numberOfChannels img) \<le> c \<longrightarrow>
        img_samples (compositeInset img ins pos opacity) ! c = img_samples img ! c)"
proof -
  define r where "r = intersection
       (Rect (pos_x pos) (pos_y pos) (pos_x pos + int (reg_width ins)) (pos_y pos + int (reg_height ins)))
       (Rect 0 0 (int (img_width img)) (int (img_height img)))"
  define step where "step = (\<lambda>c im. setSamples im
                 (compositeInset_blend ins (case opacity of Some v \<Rightarrow> v | None \<Rightarrow> 1)
                    (rect_x0 r - pos_x pos) (rect_y0 r - pos_y pos)
                    (nat (rect_width r)) (nat (rect_height r)) c (getSamples im r c)) r c)"
  have ci: "compositeInset img ins pos opacity
       = (if isEmpty r then img else fold step [0..<min (reg_channels ins) (numberOfChannels img)] img)"
    unfolding step_def r_def by (rule compositeInset_unfold)
  have dims: "img_width (step c im) = img_width im \<and> img_height (step c im) = img_height im
        \<and> length (img_samples (step c im)) = length (img_samples im)" for c im
    by (simp add: step_def setSamples_dims)
  have other: "c' \<noteq> c \<Longrightarrow> img_samples (step c im) ! c' = img_samples im ! c'" for c c' im
    by (simp add: step_def setSamples_other)
  show ?thesis
    using fold_channels_frame [of step "[0..<min (reg_channels ins) (numberOfChannels img)]" img c,
        OF dims other]
    by (auto simp add: ci numberOfChannels_def)
qed

lemma compositeInset_pixel:
  assumes c: "c < numberOfChannels img" and X: "X < img_width img" and Y: "Y < img_height img"
  shows "pixel (compositeInset img ins pos opacity) c X Y
       = (if c < reg_channels ins
             \<and> pos_x pos \<le> int X \<and> int X < pos_x pos + int (reg_width ins)
             \<and> pos_y pos \<le> int Y \<and> int Y < pos_y pos + int (reg_height ins)
          then blend_value ins (case opacity of Some v \<Rightarrow> v | None \<Rightarrow> 1) pos c X Y (pixel img c X Y)
          else pixel img c X Y)"
proof -
  define r where "r = intersection
       (Rect (pos_x pos) (pos_y pos) (pos_x pos + int (reg_width ins)) (pos_y pos + int (reg_height ins)))
       (Rect 0 0 (int (img_width img)) (int (img_height img)))"
  define ga where "ga = (case opacity of Some v \<Rightarrow> v | None \<Rightarrow> (1::real))"
  define step where "step = (\<lambda>c im. setSamples im
                 (compositeInset_blend ins ga
                    (rect_x0 r - pos_x pos) (rect_y0 r - pos_y pos)
                    (nat (rect_width r)) (nat (rect_height r)) c (getSamples im r c)) r c)"
  define B where "B = (\<lambda>c X Y old.
      if rect_x0 r \<le> int X \<and> int X < rect_x1 r \<and> rect_y0 r \<le> int Y \<and> int Y < rect_y1 r
      then blend_value ins ga pos c X Y old else old)"
  have rx: "rect_x0 r = max (pos_x pos) 0" "rect_y0 r = max (pos_y pos) 0"
    "rect_x1 r = min (pos_x pos + int (reg_width ins)) (int (img_width img))"
    "rect_y1 r = min (pos_y pos + int (reg_height ins)) (int (img_height img))"
    by (simp_all add: r_def intersection_def Rect_def)
  have inr: "(rect_x0 r \<le> int X \<and> int X < rect_x1 r \<and> rect_y0 r \<le> int Y \<and> int Y < rect_y1 r)
      \<longleftrightarrow> (pos_x pos \<le> int X \<and> int X < pos_x pos + int (reg_width ins)
             \<and> pos_y pos \<le> int Y \<and> int Y < pos_y pos + int (reg_height ins))"
    using X Y by (auto simp add: rx)
  have ci: "compositeInset img ins pos opacity
       = (if isEmpty r then img else fold step [0..<min (reg_channels ins) (numberOfChannels img)] img)"
    unfolding step_def ga_def r_def by (rule compositeInset_unfold)
  have dims: "img_width (step c im) = img_width im \<and> img_height (step c im) = img_height im
        \<and> length (img_samples (step c im)) = length (img_samples im)" for c im
    by (simp add: step_def setSamples_dims)
  have other: "c' \<noteq> c \<Longrightarrow> img_samples (step c im) ! c' = img_samples im ! c'" for c c' im
    by (simp add: step_def setSamples_other)
  have same: "pixel (step c im) c X Y = B c X Y (pixel im c X Y)"
    if "c < length (img_samples im)" "X < img_width im" "Y < img_height im" for c im X Y
    unfolding step_def B_def
    by (rule step_pixel [OF _ _ refl refl that]) (simp_all add: rx)
  show ?thesis
  proof (cases "isEmpty r")
    case True
    then have "\<not> (rect_x0 r \<le> int X \<and> int X < rect_x1 r \<and> rect_y0 r \<le> int Y \<and> int Y < rect_y1 r)"
      by (auto simp add: isEmpty_def)
    then have "\<not> (pos_x pos \<le> int X \<and> int X < pos_x pos + int (reg_width ins)
             \<and> pos_y pos \<le> int Y \<and> int Y < pos_y pos + int (reg_height ins))"
      using inr by blast
    with True show ?thesis by (auto simp add: ci)
  next
    case False
    show ?thesis
    proof (cases "c < reg_channels ins")
      case True
      with c have "c \<in> set [0..<min (reg_channels ins) (numberOfChannels img)]" by simp
      with fold_channels_pixel [of step B "[0..<min (reg_channels ins) (numberOfChannels img)]" c img X Y,
          OF dims other same] c X Y
      have "pixel (fold step [0..<min (reg_channels ins) (numberOfChannels img)] img) c X Y
          = B c X Y (pixel img c X Y)"
        by (simp add: numberOfChannels_def)
      with False True show ?thesis
        by (simp add: ci B_def inr ga_def)
    next
      case nc: False
      then have "c \<notin> set [0..<min (reg_channels ins) (numberOfChannels img)]" by simp
      with fold_channels_frame [of step "[0..<min (reg_channels ins) (numberOfChannels img)]" img c,
          OF dims other]
      have "pixel (fold step [0..<min (reg_channels ins) (numberOfChannels img)] img) c X Y
          = pixel img c X Y"
        by (simp add: pixel_def)
      with False nc show ?thesis by (simp add: ci)
    qed
  qed
qed


lemma step_zero_opacity:
  fixes r :: rect and pos :: position
  assumes wf: "wf_image img" and r: "0 \<le> rect_x0 r" "0 \<le> rect_y0 r"
    and off: "ox = rect_x0 r - pos_x pos" "oy = rect_y0 r - pos_y pos"
    and c: "c < length (img_samples img)"
  shows "setSamples img
            (compositeInset_blend ins 0 ox oy (nat (rect_width r)) (nat (rect_height r)) c
               (getSamples img r c)) r c = img"
proof -
  let ?img' = "setSamples img
            (compositeInset_blend ins 0 ox oy (nat (rect_width r)) (nat (rect_height r)) c
               (getSamples img r c)) r c"
  let ?W = "img_width img" and ?H = "img_height img"
  have len: "length (img_samples img ! c) = ?W * ?H"
    using wf c by (simp add: wf_image_def list_all_length)
  have len': "length (img_samples ?img' ! c) = ?W * ?H"
    using c by (rule setSamples_length)
  have "img_samples ?img' ! c ! i = img_samples img ! c ! i" if "i < ?W * ?H" for i
  proof -
    from that have w: "0 < ?W" by (cases ?W) simp_all
    have X: "i mod ?W < ?W" using w by simp
    have Y: "i div ?W < ?H" using that w by (simp add: less_mult_imp_div_less mult.commute)
    have "pixel ?img' c (i mod ?W) (i div ?W) = pixel img c (i mod ?W) (i div ?W)"
      by (simp add: step_pixel [OF r off c X Y] blend_value_def)
    then show ?thesis by (simp add: pixel_def setSamples_dims)
  qed
  with len len' have "img_samples ?img' ! c = img_samples img ! c"
    by (intro nth_equalityI) simp_all
  moreover have "img_samples ?img' = (img_samples img)[c := img_samples ?img' ! c]"
    using c by (simp add: setSamples_def)
  ultimately have "img_samples ?img' = img_samples img" by simp
  then show ?thesis by (simp add: setSamples_def)
qed

lemma fold_identity:
  "(\<And>c. c \<in> set cs \<Longrightarrow> step c img = img) \<Longrightarrow> fold step cs img = (img::image)"
  by (induction cs) simp_all

lemma compositeInset_zero_opacity:
  assumes "wf_image img"
  shows "compositeInset img ins pos (Some 0) = img"
proof -
  define r where "r = intersection
       (Rect (pos_x pos) (pos_y pos) (pos_x pos + int (reg_width ins)) (pos_y pos + int (reg_height ins)))
       (Rect 0 0 (int (img_width img)) (int (img_height img)))"
  have rx: "0 \<le> rect_x0 r" "0 \<le> rect_y0 r"
    by (simp_all add: r_def intersection_def Rect_def)
  have "fold (\<lambda>c im. setSamples im
                 (compositeInset_blend ins 0
                    (rect_x0 r - pos_x pos) (rect_y0 r - pos_y pos)
                    (nat (rect_width r)) (nat (rect_height r)) c (getSamples im r c)) r c)
               [0..<min (reg_channels ins) (numberOfChannels img)] img = img"
    by (rule fold_identity) (simp add: step_zero_opacity [OF assms rx refl refl] numberOfChannels_def)
  then show ?thesis
    using compositeInset_unfold [of img ins pos "Some 0"] by (simp add: r_def)
qed


lemma inset_index:
  assumes "pos_x pos \<le> int X" "int X < pos_x pos + int w" "pos_y pos \<le> int Y" "int Y < pos_y pos + int h"
  shows "nat ((int Y - pos_y pos) * int w + (int X - pos_x pos))
           = nat (int Y - pos_y pos) * w + nat (int X - pos_x pos)"
    and "nat (int X - pos_x pos) < w" and "nat (int Y - pos_y pos) < h"
    and "nat ((int Y - pos_y pos) * int w + (int X - pos_x pos)) < w * h"
proof -
  define x where "x = nat (int X - pos_x pos)"
  define y where "y = nat (int Y - pos_y pos)"
  have x: "int X - pos_x pos = int x" "x < w" using assms by (simp_all add: x_def)
  have y: "int Y - pos_y pos = int y" "y < h" using assms by (simp_all add: y_def)
  have i: "nat (int y * int w + int x) = y * w + x" by (rule nat_index)
  show "nat ((int Y - pos_y pos) * int w + (int X - pos_x pos))
           = nat (int Y - pos_y pos) * w + nat (int X - pos_x pos)"
    unfolding x(1) y(1) i by simp
  show "nat (int X - pos_x pos) < w" using x by (simp add: x_def)
  show "nat (int Y - pos_y pos) < h" using y by (simp add: y_def)
  show "nat ((int Y - pos_y pos) * int w + (int X - pos_x pos)) < w * h"
    unfolding x(1) y(1) i using x(2) y(2) by (rule index_less)
qed

text \<open>
  C1. For a destination pixel \<open>(X, Y)\<close> inside both the image and the inset's
  destination rectangle, and a channel below \<open>min (inset channels, image channels)\<close>,
  \<open>compositeInset\<close> stores \<open>src * alpha + dest * (1 - alpha)\<close> with
  \<open>alpha = globalOpacity * maskValue\<close>, where \<open>src\<close> is the inset sample at
  \<open>(X - pos.x, Y - pos.y)\<close>, \<open>maskValue\<close> the mask value there (1 without a mask) and
  \<open>globalOpacity\<close> the opacity argument (1 when absent). With opacity 0 every pixel
  keeps its value, and the whole image is returned unchanged when its channels have
  width * height samples;
  with opacity 1 and a mask that is 1 everywhere, or no mask, the stored sample is the
  inset sample.
\<close>

theorem compositeInset_blend_formula:
  fixes img :: image and ins :: region and pos :: position and opacity :: "real option"
    and c X Y :: nat
  defines "globalOpacity \<equiv> (case opacity of Some v \<Rightarrow> v | None \<Rightarrow> 1)"
  defines "srcIdx \<equiv> nat ((int Y - pos_y pos) * int (reg_width ins) + (int X - pos_x pos))"
  defines "maskValue \<equiv> (case reg_mask ins of Some m \<Rightarrow> m ! srcIdx | None \<Rightarrow> 1)"
  defines "src \<equiv> reg_pixels ins ! c ! srcIdx"
  defines "visible \<equiv> c < min (reg_channels ins) (numberOfChannels img)
      \<and> X < img_width img \<and> Y < img_height img
      \<and> pos_x pos \<le> int X \<and> int X < pos_x pos + int (reg_width ins)
      \<and> pos_y pos \<le> int Y \<and> int Y < pos_y pos + int (reg_height ins)"
  shows "(visible \<longrightarrow>
            pixel (compositeInset img ins pos opacity) c X Y
            = src * (globalOpacity * maskValue) + pixel img c X Y * (1 - globalOpacity * maskValue))
    \<and> (visible \<longrightarrow>
            srcIdx = nat (int Y - pos_y pos) * reg_width ins + nat (int X - pos_x pos)
          \<and> nat (int X - pos_x pos) < reg_width ins \<and> nat (int Y - pos_y pos) < reg_height ins)
    \<and> (wf_image img \<longrightarrow> compositeInset img ins pos (Some 0) = img)
    \<and> (c < numberOfChannels img \<and> X < img_width img \<and> Y < img_height img \<longrightarrow>
          pixel (compositeInset img ins pos (Some 0)) c X Y = pixel img c X Y)
    \<and> (visible \<and> globalOpacity = 1
         \<and> (\<forall>m. reg_mask ins = Some m \<longrightarrow> (\<forall>i < reg_width ins * reg_height ins. m ! i = 1))
         \<longrightarrow> pixel (compositeInset img ins pos opacity) c X Y = src)"
proof -
  have f: "pixel (compositeInset img ins pos opacity) c X Y
            = src * (globalOpacity * maskValue) + pixel img c X Y * (1 - globalOpacity * maskValue)"
    if visible
    using that compositeInset_pixel [of c img X Y ins pos opacity]
    unfolding visible_def blend_value_def Let_def src_def maskValue_def srcIdx_def
        globalOpacity_def
    by simp
  have i: "srcIdx = nat (int Y - pos_y pos) * reg_width ins + nat (int X - pos_x pos)
          \<and> nat (int X - pos_x pos) < reg_width ins \<and> nat (int Y - pos_y pos) < reg_height ins
          \<and> srcIdx < reg_width ins * reg_height ins"
    if visible
    using that inset_index [of pos X "reg_width ins" Y "reg_height ins"]
    by (simp add: visible_def srcIdx_def)
  have m: "maskValue = 1"
    if visible "\<forall>m. reg_mask ins = Some m \<longrightarrow> (\<forall>i < reg_width ins * reg_height ins. m ! i = 1)"
    using i [OF that(1)] that(2) unfolding maskValue_def by (simp split: option.splits)
  have z: "pixel (compositeInset img ins pos (Some 0)) c X Y = pixel img c X Y"
    if "c < numberOfChannels img" "X < img_width img" "Y < img_height img"
    by (simp add: compositeInset_pixel [OF that] blend_value_def)
  show ?thesis
    using f i m z compositeInset_zero_opacity [of img ins pos] by simp
qed

theorem compositeInset_blend_formula_witness:
  "wf_image img2
   \<and> compositeInset img2 inset1 pos11 (Some 0) = img2
   \<and> pixel (compositeInset img2 inset1 pos11 (Some (1 / 2))) 0 1 1 = 11 / 20"
proof -
  have wf: "wf_image img2" by (simp add: img2_def wf_image_def)
  have v: "0 < min (reg_channels inset1) (numberOfChannels img2)
      \<and> 1 < img_width img2 \<and> 1 < img_height img2
      \<and> pos_x pos11 \<le> int 1 \<and> int 1 < pos_x pos11 + int (reg_width inset1)
      \<and> pos_y pos11 \<le> int 1 \<and> int 1 < pos_y pos11 + int (reg_height inset1)"
    by (simp add: img2_def inset1_def pos11_def numberOfChannels_def)
  from compositeInset_blend_formula [of 0 inset1 img2 1 1 pos11 "Some (1 / 2)"] v
  have "pixel (compositeInset img2 inset1 pos11 (Some (1 / 2))) 0 1 1 = 11 / 20"
    by (simp add: img2_def inset1_def pos11_def pixel_def)
  moreover from compositeInset_blend_formula [of 0 inset1 img2 1 1 pos11 "Some (1 / 2)"] wf
  have "compositeInset img2 inset1 pos11 (Some 0) = img2" by blast
  ultimately show ?thesis using wf by simp
qed

text \<open>
  C8. \<open>compositeInset\<close> keeps the width, the height and the number of channels of the
  image. When the intersection of the inset's destination rectangle with the image
  bounds is empty it returns the image as it is. Channels from
  \<open>min (inset channels, image channels)\<close> on are the same lists as before, and every
  pixel outside the intersection keeps its value on every channel.
\<close>

theorem compositeInset_frame:
  fixes img :: image and ins :: region and pos :: position and opacity :: "real option"
  defines "result \<equiv> compositeInset img ins pos opacity"
  defines "destRect \<equiv> Rect (pos_x pos) (pos_y pos)
                          (pos_x pos + int (reg_width ins)) (pos_y pos + int (reg_height ins))"
  defines "bounds \<equiv> Rect 0 0 (int (img_width img)) (int (img_height img))"
  shows "img_width result = img_width img \<and> img_height result = img_height img
    \<and> numberOfChannels result = numberOfChannels img
    \<and> (isEmpty (intersection destRect bounds) \<longrightarrow> result = img)
    \<and> (\<forall>c. min (reg_channels ins) (numberOfChannels img) \<le> c \<longrightarrow>
           img_samples result ! c = img_samples img ! c)
    \<and> (\<forall>c X Y. c < numberOfChannels img \<and> X < img_width img \<and> Y < img_height img
           \<and> \<not> (rect_x0 (intersection destRect bounds) \<le> int X
                \<and> int X < rect_x1 (intersection destRect bounds)
                \<and> rect_y0 (intersection destRect bounds) \<le> int Y
                \<and> int Y < rect_y1 (intersection destRect bounds))
           \<longrightarrow> pixel result c X Y = pixel img c X Y)"
proof -
  have e: "result = img" if "isEmpty (intersection destRect bounds)"
    using that compositeInset_unfold [of img ins pos opacity]
    by (simp add: result_def destRect_def bounds_def)
  have p: "pixel result c X Y = pixel img c X Y"
    if "c < numberOfChannels img" "X < img_width img" "Y < img_height img"
      "\<not> (rect_x0 (intersection destRect bounds) \<le> int X
                \<and> int X < rect_x1 (intersection destRect bounds)
                \<and> rect_y0 (intersection destRect bounds) \<le> int Y
                \<and> int Y < rect_y1 (intersection destRect bounds))" for c X Y
  proof -
    from that(2,3,4) have "\<not> (pos_x pos \<le> int X \<and> int X < pos_x pos + int (reg_width ins)
             \<and> pos_y pos \<le> int Y \<and> int Y < pos_y pos + int (reg_height ins))"
      by (auto simp add: destRect_def bounds_def intersection_def Rect_def)
    then show ?thesis
      unfolding result_def compositeInset_pixel [OF that(1,2,3)] by auto
  qed
  show ?thesis
    using e p compositeInset_dims [of img ins pos opacity]
    by (simp add: result_def)
qed

theorem compositeInset_frame_witness:
  "isEmpty (intersection (Rect (pos_x pos55) (pos_y pos55)
                (pos_x pos55 + int (reg_width inset1)) (pos_y pos55 + int (reg_height inset1)))
             (Rect 0 0 (int (img_width img2)) (int (img_height img2))))
   \<and> compositeInset img2 inset1 pos55 None = img2
   \<and> pixel (compositeInset img2 inset1 pos11 None) 0 0 0 = 1 / 10"
proof -
  have e: "isEmpty (intersection (Rect (pos_x pos55) (pos_y pos55)
                (pos_x pos55 + int (reg_width inset1)) (pos_y pos55 + int (reg_height inset1)))
             (Rect 0 0 (int (img_width img2)) (int (img_height img2))))"
    by (simp add: isEmpty_def intersection_def Rect_def pos55_def inset1_def img2_def)
  with compositeInset_frame [of img2 inset1 pos55 None]
  have a: "compositeInset img2 inset1 pos55 None = img2" by blast
  have "0 < numberOfChannels img2 \<and> 0 < img_width img2 \<and> 0 < img_height img2
      \<and> \<not> (rect_x0 (intersection (Rect (pos_x pos11) (pos_y pos11)
                (pos_x pos11 + int (reg_width inset1)) (pos_y pos11 + int (reg_height inset1)))
             (Rect 0 0 (int (img_width img2)) (int (img_height img2)))) \<le> int 0)"
    by (simp add: intersection_def Rect_def pos11_def inset1_def img2_def numberOfChannels_def)
  with compositeInset_frame [of img2 inset1 pos11 None]
  have "pixel (compositeInset img2 inset1 pos11 None) 0 0 0 = pixel img2 0 0 0" by blast
  then have "pixel (compositeInset img2 inset1 pos11 None) 0 0 0 = 1 / 10"
    by (simp add: pixel_def img2_def)
  with e a show ?thesis by simp
qed

section \<open>Properties: thick lines\<close>

lemma unit_direction:
  assumes "0 < sqrt (dx * dx + dy * dy)"
  shows "(dx / sqrt (dx * dx + dy * dy)) * (dx / sqrt (dx * dx + dy * dy))
       + (dy / sqrt (dx * dx + dy * dy)) * (dy / sqrt (dx * dx + dy * dy)) = 1"
proof -
  let ?L = "sqrt (dx * dx + dy * dy)"
  have nn: "0 \<le> dx * dx + dy * dy" by simp
  have sq: "?L * ?L = dx * dx + dy * dy" using nn by (simp only: real_sqrt_mult_self abs_of_nonneg)
  have nz: "?L * ?L \<noteq> 0" using mult_pos_pos [OF assms assms] by linarith
  have "(dx / ?L) * (dx / ?L) + (dy / ?L) * (dy / ?L) = (dx * dx + dy * dy) / (?L * ?L)"
    by (simp only: times_divide_times_eq add_divide_distrib)
  also have "\<dots> = (?L * ?L) / (?L * ?L)" by (simp only: sq)
  also have "\<dots> = 1" using nz by (rule divide_self)
  finally show ?thesis .
qed

lemma offset_norm:
  assumes "n1 * n1 + n2 * n2 = (1::real)"
  shows "((s * n1 - e * n2) - t * n1) * ((s * n1 - e * n2) - t * n1)
       + ((s * n2 + e * n1) - t * n2) * ((s * n2 + e * n1) - t * n2)
       = (s - t) * (s - t) + e * e"
proof -
  have "((s * n1 - e * n2) - t * n1) * ((s * n1 - e * n2) - t * n1)
       + ((s * n2 + e * n1) - t * n2) * ((s * n2 + e * n1) - t * n2)
       = ((s - t) * (s - t) + e * e) * (n1 * n1 + n2 * n2)"
    by (simp add: algebra_simps)
  then show ?thesis by (simp add: assms)
qed

lemma projection:
  assumes "n1 * n1 + n2 * n2 = (1::real)"
  shows "(s * n1 - e * n2) * n1 + (s * n2 + e * n1) * n2 = s"
proof -
  have "(s * n1 - e * n2) * n1 + (s * n2 + e * n1) * n2 = s * (n1 * n1 + n2 * n2)"
    by (simp add: algebra_simps)
  then show ?thesis by (simp add: assms)
qed

lemma clamp_segment:
  "0 \<le> b \<Longrightarrow> (if v < 0 then 0 else if v > b then b else v) = max 0 (min b (v::real))"
  by (simp add: max_def min_def)

lemma line_dist_offset:
  fixes x0 y0 x1 y1 s e :: real
  defines "L \<equiv> sqrt ((x1 - x0) * (x1 - x0) + (y1 - y0) * (y1 - y0))"
  assumes len: "1 / 1000 \<le> L"
    and px: "real_of_int X + 1 / 2 = x0 + s * (x1 - x0) - e * ((y1 - y0) / L)"
    and py: "real_of_int Y + 1 / 2 = y0 + s * (y1 - y0) + e * ((x1 - x0) / L)"
  shows "bresenhamLine_dist x0 y0 x1 y1 X Y
       = sqrt ((s * L - max 0 (min L (s * L))) * (s * L - max 0 (min L (s * L))) + e * e)"
proof -
  define n1 where "n1 = (x1 - x0) / L"
  define n2 where "n2 = (y1 - y0) / L"
  have Lpos: "0 < L" using len by simp
  have n: "n1 * n1 + n2 * n2 = 1"
    unfolding n1_def n2_def L_def using Lpos unfolding L_def by (rule unit_direction)
  have d: "x1 - x0 = L * n1" "y1 - y0 = L * n2" using Lpos by (simp_all add: n1_def n2_def)
  have ox: "real_of_int X + 1 / 2 - x0 = (s * L) * n1 - e * n2"
    using px by (simp only: n2_def [symmetric]) (simp add: d(1) algebra_simps)
  have oy: "real_of_int Y + 1 / 2 - y0 = (s * L) * n2 + e * n1"
    using py by (simp only: n1_def [symmetric]) (simp add: d(2) algebra_simps)
  have t0: "(real_of_int X + 1 / 2 - x0) * n1 + (real_of_int Y + 1 / 2 - y0) * n2 = s * L"
    unfolding ox oy by (rule projection [OF n])
  define t where "t = (if s * L < 0 then 0 else if s * L > L then L else s * L)"
  have tc: "t = max 0 (min L (s * L))"
    unfolding t_def by (rule clamp_segment) (use Lpos in simp)
  have nl: "(L < 0.001) = False" using len by simp
  have half: "(0.5::real) = 1 / 2" by simp
  have "bresenhamLine_dist x0 y0 x1 y1 X Y
      = sqrt ((real_of_int X + 1 / 2 - (x0 + t * n1)) * (real_of_int X + 1 / 2 - (x0 + t * n1))
            + (real_of_int Y + 1 / 2 - (y0 + t * n2)) * (real_of_int Y + 1 / 2 - (y0 + t * n2)))"
    unfolding bresenhamLine_dist_def Let_def L_def [symmetric] nl if_False
      n1_def [symmetric] n2_def [symmetric] half t0 t_def [symmetric]
    by (rule refl)
  also have "(real_of_int X + 1 / 2 - (x0 + t * n1)) = (s * L) * n1 - e * n2 - t * n1"
    using ox by simp
  also have "(real_of_int Y + 1 / 2 - (y0 + t * n2)) = (s * L) * n2 + e * n1 - t * n2"
    using oy by simp
  finally show ?thesis by (simp only: offset_norm [OF n] tc)
qed


lemma line_dist_degenerate:
  assumes "sqrt ((x1 - x0) * (x1 - x0) + (y1 - y0) * (y1 - y0)) < 1 / 1000"
  shows "bresenhamLine_dist x0 y0 x1 y1 X Y = bresenhamLine_dist x0 y0 (x0 + 1) y0 X Y"
    and "bresenhamLine_dist x0 y0 x1 y1 X Y
       = sqrt ((real_of_int X + 1 / 2 - (x0 + max 0 (min 1 (real_of_int X + 1 / 2 - x0))))\<^sup>2
             + (real_of_int Y + 1 / 2 - y0)\<^sup>2)"
  using assms by (simp_all add: bresenhamLine_dist_def Let_def power2_eq_square max_def min_def)

text \<open>
  The distance from the pixel centre to a point of the segment, in the coordinates
  along and across the segment, and the closest of these points.
\<close>

lemma line_point_dist:
  fixes x0 y0 x1 y1 s e u :: real
  defines "L \<equiv> sqrt ((x1 - x0) * (x1 - x0) + (y1 - y0) * (y1 - y0))"
  assumes len: "1 / 1000 \<le> L"
    and px: "real_of_int X + 1 / 2 = x0 + s * (x1 - x0) - e * ((y1 - y0) / L)"
    and py: "real_of_int Y + 1 / 2 = y0 + s * (y1 - y0) + e * ((x1 - x0) / L)"
  shows "(real_of_int X + 1 / 2 - (x0 + u * (x1 - x0)))\<^sup>2 + (real_of_int Y + 1 / 2 - (y0 + u * (y1 - y0)))\<^sup>2
       = (s * L - u * L) * (s * L - u * L) + e * e"
proof -
  define n1 where "n1 = (x1 - x0) / L"
  define n2 where "n2 = (y1 - y0) / L"
  have Lpos: "0 < L" using len by simp
  have n: "n1 * n1 + n2 * n2 = 1"
    unfolding n1_def n2_def L_def using Lpos unfolding L_def by (rule unit_direction)
  have d: "x1 - x0 = L * n1" "y1 - y0 = L * n2" using Lpos by (simp_all add: n1_def n2_def)
  have ox: "real_of_int X + 1 / 2 - (x0 + u * (x1 - x0)) = (s * L) * n1 - e * n2 - (u * L) * n1"
    using px by (simp only: n2_def [symmetric]) (simp add: d(1) algebra_simps)
  have oy: "real_of_int Y + 1 / 2 - (y0 + u * (y1 - y0)) = (s * L) * n2 + e * n1 - (u * L) * n2"
    using py by (simp only: n1_def [symmetric]) (simp add: d(2) algebra_simps)
  show ?thesis
    unfolding ox oy power2_eq_square by (rule offset_norm [OF n])
qed

lemma clamp_nearest:
  fixes a v L :: real
  assumes "0 \<le> v" "v \<le> L"
  shows "(a - max 0 (min L a)) * (a - max 0 (min L a)) \<le> (a - v) * (a - v)"
proof -
  have "\<bar>a - max 0 (min L a)\<bar> \<le> \<bar>a - v\<bar>" using assms by (simp add: max_def min_def abs_if)
  then have "(a - max 0 (min L a))\<^sup>2 \<le> (a - v)\<^sup>2" by (simp only: abs_le_square_iff)
  then show ?thesis by (simp only: power2_eq_square)
qed

lemma line_dist_geometry:
  fixes x0 y0 x1 y1 s e :: real and X Y :: int
  defines "L \<equiv> sqrt ((x1 - x0) * (x1 - x0) + (y1 - y0) * (y1 - y0))"
  defines "dd \<equiv> bresenhamLine_dist x0 y0 x1 y1 X Y"
  assumes len: "1 / 1000 \<le> L"
    and px: "real_of_int X + 1 / 2 = x0 + s * (x1 - x0) - e * ((y1 - y0) / L)"
    and py: "real_of_int Y + 1 / 2 = y0 + s * (y1 - y0) + e * ((x1 - x0) / L)"
  shows "\<bar>e\<bar> \<le> dd"
    and "0 \<le> s \<and> s \<le> 1 \<longrightarrow> dd = \<bar>e\<bar>"
    and "s \<le> 0 \<longrightarrow> dd = sqrt ((real_of_int X + 1 / 2 - x0)\<^sup>2 + (real_of_int Y + 1 / 2 - y0)\<^sup>2)"
    and "1 \<le> s \<longrightarrow> dd = sqrt ((real_of_int X + 1 / 2 - x1)\<^sup>2 + (real_of_int Y + 1 / 2 - y1)\<^sup>2)"
    and "\<forall>u. 0 \<le> u \<and> u \<le> 1 \<longrightarrow>
           dd \<le> sqrt ((real_of_int X + 1 / 2 - (x0 + u * (x1 - x0)))\<^sup>2
                     + (real_of_int Y + 1 / 2 - (y0 + u * (y1 - y0)))\<^sup>2)"
proof -
  let ?r = "s * L - max 0 (min L (s * L))"
  have Lpos: "0 < L" using len by simp
  have d: "dd = sqrt (?r * ?r + e * e)"
    unfolding dd_def using len px py unfolding L_def by (rule line_dist_offset)
  note pd = line_point_dist [OF len [unfolded L_def] px [unfolded L_def] py [unfolded L_def],
      folded L_def]
  have "sqrt (e * e) \<le> sqrt (?r * ?r + e * e)" by (rule real_sqrt_le_mono) simp
  then show "\<bar>e\<bar> \<le> dd" by (simp add: d)
  show "0 \<le> s \<and> s \<le> 1 \<longrightarrow> dd = \<bar>e\<bar>"
  proof
    assume a: "0 \<le> s \<and> s \<le> 1"
    then have "0 \<le> s * L" using Lpos by simp
    moreover have "s * L \<le> 1 * L" using a Lpos by (intro mult_right_mono) simp_all
    ultimately have "?r = 0" by simp
    then show "dd = \<bar>e\<bar>" by (simp add: d)
  qed
  show "s \<le> 0 \<longrightarrow> dd = sqrt ((real_of_int X + 1 / 2 - x0)\<^sup>2 + (real_of_int Y + 1 / 2 - y0)\<^sup>2)"
  proof
    assume a: "s \<le> 0"
    then have "s * L \<le> 0" using Lpos by (simp add: mult_le_0_iff)
    then have "max 0 (min L (s * L)) = 0 * L" using Lpos by simp
    then have "dd = sqrt ((s * L - 0 * L) * (s * L - 0 * L) + e * e)" by (simp only: d)
    also have "\<dots> = sqrt ((real_of_int X + 1 / 2 - (x0 + 0 * (x1 - x0)))\<^sup>2
                     + (real_of_int Y + 1 / 2 - (y0 + 0 * (y1 - y0)))\<^sup>2)"
      by (simp only: pd [of 0])
    finally show "dd = sqrt ((real_of_int X + 1 / 2 - x0)\<^sup>2 + (real_of_int Y + 1 / 2 - y0)\<^sup>2)"
      by simp
  qed
  show "1 \<le> s \<longrightarrow> dd = sqrt ((real_of_int X + 1 / 2 - x1)\<^sup>2 + (real_of_int Y + 1 / 2 - y1)\<^sup>2)"
  proof
    assume a: "1 \<le> s"
    then have "1 * L \<le> s * L" using Lpos by (intro mult_right_mono) simp_all
    then have "max 0 (min L (s * L)) = 1 * L" using Lpos by simp
    then have "dd = sqrt ((s * L - 1 * L) * (s * L - 1 * L) + e * e)" by (simp only: d)
    also have "\<dots> = sqrt ((real_of_int X + 1 / 2 - (x0 + 1 * (x1 - x0)))\<^sup>2
                     + (real_of_int Y + 1 / 2 - (y0 + 1 * (y1 - y0)))\<^sup>2)"
      by (simp only: pd [of 1])
    finally show "dd = sqrt ((real_of_int X + 1 / 2 - x1)\<^sup>2 + (real_of_int Y + 1 / 2 - y1)\<^sup>2)"
      by simp
  qed
  show "\<forall>u. 0 \<le> u \<and> u \<le> 1 \<longrightarrow>
           dd \<le> sqrt ((real_of_int X + 1 / 2 - (x0 + u * (x1 - x0)))\<^sup>2
                     + (real_of_int Y + 1 / 2 - (y0 + u * (y1 - y0)))\<^sup>2)"
  proof (intro allI impI)
    fix u :: real assume a: "0 \<le> u \<and> u \<le> 1"
    then have "0 \<le> u * L" using Lpos by simp
    moreover have "u * L \<le> 1 * L" using a Lpos by (intro mult_right_mono) simp_all
    ultimately have "?r * ?r \<le> (s * L - u * L) * (s * L - u * L)"
      by (intro clamp_nearest) simp_all
    then have "sqrt (?r * ?r + e * e) \<le> sqrt ((s * L - u * L) * (s * L - u * L) + e * e)"
      by (intro real_sqrt_le_mono) simp
    then show "dd \<le> sqrt ((real_of_int X + 1 / 2 - (x0 + u * (x1 - x0)))\<^sup>2
                     + (real_of_int Y + 1 / 2 - (y0 + u * (y1 - y0)))\<^sup>2)"
      by (simp only: d pd [of u])
  qed
qed

text \<open>
  The closest point lies in the box spanned by the end points (one pixel further right
  for the substituted unit segment), so a pixel with coverage lies inside the box
  padded by \<open>thickness / 2 + 1.5\<close> that the function scans.
\<close>

lemma segment_point:
  fixes a b u :: real
  assumes "0 \<le> u" "u \<le> 1"
  shows "min a b \<le> a + u * (b - a) \<and> a + u * (b - a) \<le> max a b"
proof (cases "a \<le> b")
  case True
  then have "0 \<le> u * (b - a)" "u * (b - a) \<le> b - a"
    using assms by (simp_all add: mult_left_le_one_le)
  with True show ?thesis by simp
next
  case False
  then have "0 \<le> u * (a - b)" "u * (a - b) \<le> a - b"
    using assms by (simp_all add: mult_left_le_one_le)
  moreover have "u * (b - a) = - (u * (a - b))" by (simp add: algebra_simps)
  moreover have "min a b = b" "max a b = a" using False by simp_all
  ultimately show ?thesis by linarith
qed

lemma closest_point:
  fixes x0 y0 x1 y1 :: real
  shows "\<exists>cx cy. bresenhamLine_dist x0 y0 x1 y1 X Y
             = sqrt ((real_of_int X + 1 / 2 - cx)\<^sup>2 + (real_of_int Y + 1 / 2 - cy)\<^sup>2)
           \<and> min x0 x1 \<le> cx \<and> cx \<le> max x0 x1 + 1 \<and> min y0 y1 \<le> cy \<and> cy \<le> max y0 y1"
proof (cases "sqrt ((x1 - x0) * (x1 - x0) + (y1 - y0) * (y1 - y0)) < 1 / 1000")
  case True
  define t where "t = max 0 (min 1 (real_of_int X + 1 / 2 - x0))"
  have t: "0 \<le> t" "t \<le> 1" by (simp_all add: t_def)
  have "bresenhamLine_dist x0 y0 x1 y1 X Y
      = sqrt ((real_of_int X + 1 / 2 - (x0 + t))\<^sup>2 + (real_of_int Y + 1 / 2 - y0)\<^sup>2)"
    unfolding t_def using True by (rule line_dist_degenerate(2))
  moreover have "min x0 x1 \<le> x0 + t" "x0 + t \<le> max x0 x1 + 1" using t by simp_all
  moreover have "min y0 y1 \<le> y0" "y0 \<le> max y0 y1" by simp_all
  ultimately show ?thesis by blast
next
  case False
  define L where "L = sqrt ((x1 - x0) * (x1 - x0) + (y1 - y0) * (y1 - y0))"
  define t0 where "t0 = (real_of_int X + 0.5 - x0) * ((x1 - x0) / L) + (real_of_int Y + 0.5 - y0) * ((y1 - y0) / L)"
  define t where "t = (if t0 < 0 then 0 else if t0 > L then L else t0)"
  have nl: "\<not> L < 1 / 1000" using False unfolding L_def .
  then have L: "0 < L" "\<not> L < 0.001" by simp_all
  have tb: "0 \<le> t" "t \<le> L" using L(1) by (simp_all add: t_def)
  then have u: "0 \<le> t / L" "t / L \<le> 1" using L(1) by simp_all
  have d: "bresenhamLine_dist x0 y0 x1 y1 X Y
      = sqrt ((real_of_int X + 0.5 - (x0 + t * ((x1 - x0) / L))) * (real_of_int X + 0.5 - (x0 + t * ((x1 - x0) / L)))
            + (real_of_int Y + 0.5 - (y0 + t * ((y1 - y0) / L))) * (real_of_int Y + 0.5 - (y0 + t * ((y1 - y0) / L))))"
    unfolding bresenhamLine_dist_def Let_def L_def [symmetric] if_not_P [OF L(2)]
      t0_def [symmetric] t_def [symmetric]
    by (rule refl)
  have e: "x0 + t * ((x1 - x0) / L) = x0 + (t / L) * (x1 - x0)"
    "y0 + t * ((y1 - y0) / L) = y0 + (t / L) * (y1 - y0)"
    by simp_all
  have "bresenhamLine_dist x0 y0 x1 y1 X Y
      = sqrt ((real_of_int X + 1 / 2 - (x0 + (t / L) * (x1 - x0)))\<^sup>2
            + (real_of_int Y + 1 / 2 - (y0 + (t / L) * (y1 - y0)))\<^sup>2)"
    unfolding d e by (simp add: power2_eq_square)
  moreover from segment_point [OF u, of x0 x1] segment_point [OF u, of y0 y1]
  have "min x0 x1 \<le> x0 + (t / L) * (x1 - x0)" "x0 + (t / L) * (x1 - x0) \<le> max x0 x1 + 1"
    "min y0 y1 \<le> y0 + (t / L) * (y1 - y0)" "y0 + (t / L) * (y1 - y0) \<le> max y0 y1"
    by simp_all
  ultimately show ?thesis by blast
qed

lemma coverage_positive:
  "0 < bresenhamLine_coverage x0 y0 x1 y1 thickness X Y \<Longrightarrow>
   bresenhamLine_dist x0 y0 x1 y1 X Y < thickness / 2 + 1 / 2"
  by (simp add: bresenhamLine_coverage_def Let_def split: if_splits)

lemma coverage_in_box:
  assumes "0 < bresenhamLine_coverage x0 y0 x1 y1 thickness X Y"
  shows "\<lfloor>min x0 x1 - (thickness / 2 + 1.5)\<rfloor> \<le> X \<and> X < \<lceil>max x0 x1 + (thickness / 2 + 1.5)\<rceil>
       \<and> \<lfloor>min y0 y1 - (thickness / 2 + 1.5)\<rfloor> \<le> Y \<and> Y < \<lceil>max y0 y1 + (thickness / 2 + 1.5)\<rceil>"
proof -
  obtain cx cy where d: "bresenhamLine_dist x0 y0 x1 y1 X Y
             = sqrt ((real_of_int X + 1 / 2 - cx)\<^sup>2 + (real_of_int Y + 1 / 2 - cy)\<^sup>2)"
    and b: "min x0 x1 \<le> cx" "cx \<le> max x0 x1 + 1" "min y0 y1 \<le> cy" "cy \<le> max y0 y1"
    using closest_point [of x0 y0 x1 y1 X Y] by blast
  have r: "bresenhamLine_dist x0 y0 x1 y1 X Y < thickness / 2 + 1 / 2"
    using assms by (rule coverage_positive)
  have "\<bar>real_of_int X + 1 / 2 - cx\<bar> \<le> bresenhamLine_dist x0 y0 x1 y1 X Y"
    "\<bar>real_of_int Y + 1 / 2 - cy\<bar> \<le> bresenhamLine_dist x0 y0 x1 y1 X Y"
    unfolding d by (rule real_sqrt_ge_abs1, rule real_sqrt_ge_abs2)
  with r have a: "\<bar>real_of_int X + 1 / 2 - cx\<bar> < thickness / 2 + 1 / 2"
    "\<bar>real_of_int Y + 1 / 2 - cy\<bar> < thickness / 2 + 1 / 2"
    by linarith+
  have x1: "min x0 x1 - (thickness / 2 + 1.5) < real_of_int X" using a(1) b(1) by (simp add: abs_if split: if_splits)
  have x2: "real_of_int X < max x0 x1 + (thickness / 2 + 1.5)" using a(1) b(2) by (simp add: abs_if split: if_splits)
  have y1: "min y0 y1 - (thickness / 2 + 1.5) < real_of_int Y" using a(2) b(3) by (simp add: abs_if split: if_splits)
  have y2: "real_of_int Y < max y0 y1 + (thickness / 2 + 1.5)" using a(2) b(4) by (simp add: abs_if split: if_splits)
  have "\<lfloor>min x0 x1 - (thickness / 2 + 1.5)\<rfloor> \<le> X" using x1 by (simp add: floor_le_iff)
  moreover have "X < \<lceil>max x0 x1 + (thickness / 2 + 1.5)\<rceil>" using x2 by (simp add: less_ceiling_iff)
  moreover have "\<lfloor>min y0 y1 - (thickness / 2 + 1.5)\<rfloor> \<le> Y" using y1 by (simp add: floor_le_iff)
  moreover have "Y < \<lceil>max y0 y1 + (thickness / 2 + 1.5)\<rceil>" using y2 by (simp add: less_ceiling_iff)
  ultimately show ?thesis by blast
qed

text \<open>
  The two nested loops of \<open>bresenhamLine\<close>, one pixel at a time: a step that changes
  one sample by a function of its old value composes into a fold of these functions,
  and among distinct rows (or channels) only the pixel's own contributes.
\<close>

lemma fold_pixel_steps:
  assumes dims: "\<And>k im. img_width (step k im) = img_width im
                  \<and> img_height (step k im) = img_height im
                  \<and> length (img_samples (step k im)) = length (img_samples im)"
    and px: "\<And>k im. c < length (img_samples im) \<Longrightarrow> X < img_width im \<Longrightarrow> Y < img_height im \<Longrightarrow>
               pixel (step k im) c X Y = P k (pixel im c X Y)"
    and "c < length (img_samples img)" "X < img_width img" "Y < img_height img"
  shows "pixel (fold step ks img) c X Y = fold P ks (pixel img c X Y)"
  using assms(3-)
proof (induction ks arbitrary: img)
  case Nil
  show ?case by simp
next
  case (Cons k ks)
  from Cons.prems dims [of k img]
  have "pixel (fold step ks (step k img)) c X Y = fold P ks (pixel (step k img) c X Y)"
    by (intro Cons.IH) simp_all
  with px [of img k] Cons.prems show ?case by simp
qed

lemma fold_single:
  "distinct ks \<Longrightarrow> fold (\<lambda>k v. if k = a then g v else v) ks v0 = (if a \<in> set ks then g v0 else v0)"
  by (induction ks arbitrary: v0) auto

lemma row_members:
  "(r \<in> set (map (\<lambda>k. lo + int k) [0..<nat (hi - lo)])) = (lo \<le> r \<and> r < hi)"
proof
  assume "r \<in> set (map (\<lambda>k. lo + int k) [0..<nat (hi - lo)])"
  then obtain k where "k < nat (hi - lo)" "r = lo + int k" by auto
  then show "lo \<le> r \<and> r < hi" by linarith
next
  assume a: "lo \<le> r \<and> r < hi"
  then have "nat (r - lo) < nat (hi - lo)" "r = lo + int (nat (r - lo))" by simp_all
  then show "r \<in> set (map (\<lambda>k. lo + int k) [0..<nat (hi - lo)])"
    by (metis (no_types, lifting) atLeastLessThan_iff imageI le0 set_map set_upt)
qed

lemma row_distinct: "distinct (map (\<lambda>k. lo + int k) [0..<n])"
  by (simp add: distinct_map inj_on_def)


lemma line_channel_pixel:
  fixes im :: image and covRow :: "real list" and cov :: "int \<Rightarrow> real"
  assumes cr: "covRow = map (\<lambda>k. cov (minX + int k)) [0..<nat (maxX - minX)]"
    and m: "0 \<le> minX"
    and c: "c < length (img_samples im)" and X: "X < img_width im" and Y: "Y < img_height im"
  shows "pixel (let buffer = getSamples im (Rect minX row maxX (row + 1)) c;
                    blended = map (\<lambda>(coverage, v).
                                if coverage > 0
                                then (let pixelAlpha = alpha * coverage
                                      in colorVal * pixelAlpha + v * (1 - pixelAlpha))
                                else v) (zip covRow buffer);
                    modified = list_ex (\<lambda>coverage. coverage > 0) covRow
                in if modified then setSamples im blended (Rect minX row maxX (row + 1)) c else im) c X Y
       = (if minX \<le> int X \<and> int X < maxX \<and> int Y = row \<and> 0 < cov (int X)
          then colorVal * (alpha * cov (int X)) + pixel im c X Y * (1 - alpha * cov (int X))
          else pixel im c X Y)"
proof -
  let ?r = "Rect minX row maxX (row + 1)"
  let ?f = "\<lambda>(coverage, v). if coverage > 0
              then (let pixelAlpha = alpha * coverage in colorVal * pixelAlpha + v * (1 - pixelAlpha))
              else (v::real)"
  let ?buf = "map ?f (zip covRow (getSamples im ?r c))"
  have r: "rect_x0 ?r = minX" "rect_y0 ?r = row" "rect_x1 ?r = maxX" "rect_y1 ?r = row + 1"
    "rect_width ?r = maxX - minX" "rect_height ?r = 1"
    by (simp_all add: Rect_def rect_width_def rect_height_def)
  have set: "pixel (setSamples im ?buf ?r c) c X Y
      = (if minX \<le> int X \<and> int X < maxX \<and> int Y = row
         then ?buf ! (nat (int X - minX)) else pixel im c X Y)"
    by (simp add: setSamples_pixel [OF c X Y] r)
  show ?thesis
  proof (cases "minX \<le> int X \<and> int X < maxX \<and> int Y = row")
    case False
    then show ?thesis by (auto simp add: Let_def set)
  next
    case True
    define k where "k = nat (int X - minX)"
    have k: "k < nat (maxX - minX)" "minX + int k = int X" "nat minX + k = X"
      using True m by (simp_all add: k_def) linarith
    have row: "nat row = Y" "0 \<le> row" using True by auto
    have ck: "covRow ! k = cov (int X)" using k(1,2) by (simp add: cr)
    have len: "length covRow = nat (maxX - minX)" by (simp add: cr)
    have gl: "length (getSamples im ?r c) = nat (maxX - minX)"
      by (simp add: getSamples_def length_rows r)
    have "getSamples im ?r c ! (0 * nat (rect_width ?r) + k)
        = pixel im c (nat (rect_x0 ?r) + k) (nat (rect_y0 ?r) + 0)"
      by (rule getSamples_nth) (use m row k(1) in \<open>simp_all add: r\<close>)
    then have gk: "getSamples im ?r c ! k = pixel im c X Y"
      by (simp add: r k(3) row(1))
    have bk: "?buf ! k = (if cov (int X) > 0
          then colorVal * (alpha * cov (int X)) + pixel im c X Y * (1 - alpha * cov (int X))
          else pixel im c X Y)"
      using k(1) by (simp add: len gl ck gk Let_def)
    show ?thesis
    proof (cases "list_ex (\<lambda>coverage. coverage > 0) covRow")
      case ex: True
      show ?thesis using True ex by (simp add: Let_def set k_def [symmetric] bk)
    next
      case nex: False
      have "covRow ! k \<in> set covRow" using k(1) len by simp
      with nex have "\<not> 0 < covRow ! k" by (auto simp add: list_ex_iff)
      then have "\<not> 0 < cov (int X)" by (simp add: ck)
      with nex show ?thesis by (simp add: Let_def)
    qed
  qed
qed

text \<open>
  \<open>bresenhamLine\<close> writes through \<open>setSamples\<close> only: the image keeps its width, its
  height and its number of channels.
\<close>

lemma fold_preserves: "(\<And>x s. g (f x s) = g s) \<Longrightarrow> g (fold f xs s) = g s"
  by (induction xs arbitrary: s) simp_all

lemma bresenhamLine_dims:
  "img_width (bresenhamLine img x0 y0 x1 y1 col thickness) = img_width img
   \<and> img_height (bresenhamLine img x0 y0 x1 y1 col thickness) = img_height img
   \<and> numberOfChannels (bresenhamLine img x0 y0 x1 y1 col thickness) = numberOfChannels img"
proof -
  have "g (bresenhamLine img x0 y0 x1 y1 col thickness) = g img"
    if "\<And>im buf r c. g (setSamples im buf r c) = g im" for g :: "image \<Rightarrow> nat"
    unfolding bresenhamLine_def Let_def
    by (simp add: fold_preserves [where g = g] that)
  from this [of img_width] this [of img_height] this [of numberOfChannels]
  show ?thesis by (simp add: setSamples_dims numberOfChannels_def)
qed

lemma bresenhamLine_pixel:
  fixes img :: image and x0 y0 x1 y1 thickness :: real and col :: color
  defines "minX \<equiv> max 0 \<lfloor>min x0 x1 - (thickness / 2 + 1.5)\<rfloor>"
  defines "maxX \<equiv> min (int (img_width img)) \<lceil>max x0 x1 + (thickness / 2 + 1.5)\<rceil>"
  defines "minY \<equiv> max 0 \<lfloor>min y0 y1 - (thickness / 2 + 1.5)\<rfloor>"
  defines "maxY \<equiv> min (int (img_height img)) \<lceil>max y0 y1 + (thickness / 2 + 1.5)\<rceil>"
  assumes c: "c < numberOfChannels img" and X: "X < img_width img" and Y: "Y < img_height img"
  shows "pixel (bresenhamLine img x0 y0 x1 y1 col thickness) c X Y
       = (if c < 3 \<and> minX \<le> int X \<and> int X < maxX \<and> minY \<le> int Y \<and> int Y < maxY
             \<and> 0 < bresenhamLine_coverage x0 y0 x1 y1 thickness (int X) (int Y)
          then [col_r col, col_g col, col_b col] ! c
                 * (color_alpha col * bresenhamLine_coverage x0 y0 x1 y1 thickness (int X) (int Y))
               + pixel img c X Y
                 * (1 - color_alpha col * bresenhamLine_coverage x0 y0 x1 y1 thickness (int X) (int Y))
          else pixel img c X Y)"
proof -
  define covRow where "covRow = (\<lambda>row.
      map (\<lambda>k. bresenhamLine_coverage x0 y0 x1 y1 thickness (minX + int k) row) [0..<nat (maxX - minX)])"
  define chan where "chan = (\<lambda>row c im.
      let buffer = getSamples im (Rect minX row maxX (row + 1)) c;
          blended = map (\<lambda>(coverage, v).
                      if coverage > 0
                      then (let pixelAlpha = color_alpha col * coverage
                            in [col_r col, col_g col, col_b col] ! c * pixelAlpha + v * (1 - pixelAlpha))
                      else v) (zip (covRow row) buffer);
          modified = list_ex (\<lambda>coverage. coverage > 0) (covRow row)
      in if modified then setSamples im blended (Rect minX row maxX (row + 1)) c else im)"
  define rowstep where "rowstep = (\<lambda>row im.
      if \<not> list_ex (\<lambda>coverage. coverage > 0) (covRow row) then im
      else fold (chan row) [0..<min 3 (numberOfChannels img)] im)"
  have unfold: "bresenhamLine img x0 y0 x1 y1 col thickness
      = (if maxX - minX \<le> 0 \<or> maxY \<le> minY then img
         else fold rowstep (map (\<lambda>k. minY + int k) [0..<nat (maxY - minY)]) img)"
    unfolding bresenhamLine_def rowstep_def chan_def covRow_def minX_def maxX_def minY_def maxY_def
      Let_def
    by (rule refl)
  define cov where "cov = bresenhamLine_coverage x0 y0 x1 y1 thickness (int X) (int Y)"
  define blend where "blend = (\<lambda>v. [col_r col, col_g col, col_b col] ! c * (color_alpha col * cov)
      + v * (1 - color_alpha col * cov))"
  define G where "G = (\<lambda>row v. if minX \<le> int X \<and> int X < maxX \<and> int Y = row \<and> 0 < cov
                          then blend v else v)"
  define R where "R = (\<lambda>v. if c < min 3 (numberOfChannels img) \<and> minX \<le> int X \<and> int X < maxX \<and> 0 < cov
                          then blend v else v)"
  have m: "0 \<le> minX" by (simp add: minX_def)
  have chan_dims: "img_width (chan row k im) = img_width im
      \<and> img_height (chan row k im) = img_height im
      \<and> length (img_samples (chan row k im)) = length (img_samples im)" for row k im
    by (simp add: chan_def Let_def setSamples_dims)
  have chan_px: "pixel (chan row k im) c X Y = (if k = c then G row (pixel im c X Y) else pixel im c X Y)"
    if "c < length (img_samples im)" "X < img_width im" "Y < img_height im" for row k im
  proof (cases "k = c")
    case True
    have "pixel (chan row c im) c X Y
        = (if minX \<le> int X \<and> int X < maxX \<and> int Y = row
              \<and> 0 < bresenhamLine_coverage x0 y0 x1 y1 thickness (int X) row
           then [col_r col, col_g col, col_b col] ! c
                  * (color_alpha col * bresenhamLine_coverage x0 y0 x1 y1 thickness (int X) row)
                + pixel im c X Y
                  * (1 - color_alpha col * bresenhamLine_coverage x0 y0 x1 y1 thickness (int X) row)
           else pixel im c X Y)"
      unfolding chan_def
      by (rule line_channel_pixel [where cov = "\<lambda>x. bresenhamLine_coverage x0 y0 x1 y1 thickness x row"])
         (simp_all add: covRow_def m that)
    then show ?thesis using True by (auto simp add: G_def blend_def cov_def)
  next
    case False
    then have "pixel (chan row k im) c X Y = pixel im c X Y"
      by (simp add: chan_def Let_def pixel_def setSamples_other setSamples_dims)
    with False show ?thesis by simp
  qed
  have row_dims: "img_width (rowstep row im) = img_width im
      \<and> img_height (rowstep row im) = img_height im
      \<and> length (img_samples (rowstep row im)) = length (img_samples im)" for row im
    using fold_preserves [of img_width "chan row", OF conjunct1 [OF chan_dims]]
      fold_preserves [of img_height "chan row", OF conjunct1 [OF conjunct2 [OF chan_dims]]]
      fold_preserves [of "\<lambda>im. length (img_samples im)" "chan row",
        OF conjunct2 [OF conjunct2 [OF chan_dims]]]
    by (simp add: rowstep_def)
  have row_px: "pixel (rowstep row im) c X Y = (if row = int Y then R (pixel im c X Y) else pixel im c X Y)"
    if h: "c < length (img_samples im)" "X < img_width im" "Y < img_height im" for row im
  proof (cases "list_ex (\<lambda>coverage. coverage > 0) (covRow row)")
    case True
    have "pixel (fold (chan row) [0..<min 3 (numberOfChannels img)] im) c X Y
        = fold (\<lambda>k v. if k = c then G row v else v) [0..<min 3 (numberOfChannels img)] (pixel im c X Y)"
      using chan_dims chan_px h by (rule fold_pixel_steps)
    also have "\<dots> = (if c \<in> set [0..<min 3 (numberOfChannels img)] then G row (pixel im c X Y)
                        else pixel im c X Y)"
      by (rule fold_single) simp
    finally show ?thesis using True by (auto simp add: rowstep_def G_def R_def)
  next
    case False
    have "\<not> 0 < cov" if r: "row = int Y" "minX \<le> int X" "int X < maxX"
    proof -
      define k where "k = nat (int X - minX)"
      have k: "k < nat (maxX - minX)" "minX + int k = int X" using r by (simp_all add: k_def)
      then have "covRow row ! k = cov" by (simp add: covRow_def cov_def r(1))
      moreover have "covRow row ! k \<in> set (covRow row)" using k(1) by (simp add: covRow_def)
      ultimately show ?thesis using False by (auto simp add: list_ex_iff)
    qed
    with False show ?thesis by (auto simp add: rowstep_def R_def)
  qed
  show ?thesis
  proof (cases "maxX - minX \<le> 0 \<or> maxY \<le> minY")
    case True
    then have n: "\<not> (minX \<le> int X \<and> int X < maxX \<and> minY \<le> int Y \<and> int Y < maxY)" by linarith
    from True have u: "bresenhamLine img x0 y0 x1 y1 col thickness = img"
      by (simp only: unfold if_True)
    show ?thesis unfolding u using n by auto
  next
    case False
    let ?rows = "map (\<lambda>k. minY + int k) [0..<nat (maxY - minY)]"
    have c': "c < length (img_samples img)" using c by (simp add: numberOfChannels_def)
    have "pixel (fold rowstep ?rows img) c X Y
        = fold (\<lambda>row v. if row = int Y then R v else v) ?rows (pixel img c X Y)"
      using row_dims row_px c' X Y by (rule fold_pixel_steps)
    also have "\<dots> = (if int Y \<in> set ?rows then R (pixel img c X Y) else pixel img c X Y)"
      by (rule fold_single) (rule row_distinct)
    also have "\<dots> = (if minY \<le> int Y \<and> int Y < maxY then R (pixel img c X Y) else pixel img c X Y)"
      by (simp only: row_members)
    finally show ?thesis
      using False c by (auto simp add: unfold R_def blend_def cov_def)
  qed
qed

lemma bresenhamLine_drawn:
  assumes c: "c < numberOfChannels img" and X: "X < img_width img" and Y: "Y < img_height img"
  shows "pixel (bresenhamLine img x0 y0 x1 y1 col thickness) c X Y
       = (if c < 3 \<and> 0 < bresenhamLine_coverage x0 y0 x1 y1 thickness (int X) (int Y)
          then [col_r col, col_g col, col_b col] ! c
                 * (color_alpha col * bresenhamLine_coverage x0 y0 x1 y1 thickness (int X) (int Y))
               + pixel img c X Y
                 * (1 - color_alpha col * bresenhamLine_coverage x0 y0 x1 y1 thickness (int X) (int Y))
          else pixel img c X Y)"
proof (cases "0 < bresenhamLine_coverage x0 y0 x1 y1 thickness (int X) (int Y)")
  case False
  then show ?thesis by (simp add: bresenhamLine_pixel [OF c X Y])
next
  case True
  from coverage_in_box [OF True] X Y
  have "max 0 \<lfloor>min x0 x1 - (thickness / 2 + 1.5)\<rfloor> \<le> int X
      \<and> int X < min (int (img_width img)) \<lceil>max x0 x1 + (thickness / 2 + 1.5)\<rceil>
      \<and> max 0 \<lfloor>min y0 y1 - (thickness / 2 + 1.5)\<rfloor> \<le> int Y
      \<and> int Y < min (int (img_height img)) \<lceil>max y0 y1 + (thickness / 2 + 1.5)\<rceil>"
    by simp
  then show ?thesis by (simp only: bresenhamLine_pixel [OF c X Y] simp_thms)
qed

text \<open>
  C7. With \<open>dist\<close> the distance \<open>bresenhamLine\<close> computes from a pixel centre to its
  clamped projection onto the segment, the coverage is 1 for
  \<open>dist \<le> thickness / 2 - 0.5\<close>, \<open>thickness / 2 + 0.5 - dist\<close> up to
  \<open>dist \<le> thickness / 2 + 0.5\<close> and 0 beyond. For a segment of length at least 0.001
  and a pixel centre written as \<open>p0 + s (p1 - p0) + e n\<close>, with \<open>n\<close> the unit normal of
  the segment, \<open>dist\<close> is \<open>\<bar>e\<bar>\<close> when the projection falls on the segment
  (\<open>0 \<le> s \<le> 1\<close>), the distance to the end point \<open>p0\<close> when it falls before it
  (\<open>s \<le> 0\<close>) and the distance to \<open>p1\<close> when it falls after it (\<open>1 \<le> s\<close>); it is
  at least \<open>\<bar>e\<bar>\<close> and at most the distance to any point of the segment. So a pixel
  centre on the segment has coverage 1 at thickness 4, and a pixel centre at
  perpendicular distance \<open>thickness / 2 + 1\<close> has coverage 0. For a segment shorter than
  0.001 the direction \<open>(1, 0)\<close> and the length 1 are substituted: the coverage is that
  of the unit segment from \<open>(x0, y0)\<close> to \<open>(x0 + 1, y0)\<close>, around which the dot is
  drawn. A pixel with coverage lies inside the padded bounding box the function scans.
  The function keeps the size and the channels of the image, and for every pixel of the
  image and every channel it returns \<open>colour * a + old * (1 - a)\<close> with
  \<open>a = alpha * coverage\<close> where the channel is one of the first three and the coverage
  is positive, and the old sample everywhere else.
\<close>

theorem bresenhamLine_coverage_zones:
  fixes x0 y0 x1 y1 thickness s e :: real and X Y :: int and img :: image and col :: color
  defines "L \<equiv> sqrt ((x1 - x0) * (x1 - x0) + (y1 - y0) * (y1 - y0))"
  defines "dd \<equiv> bresenhamLine_dist x0 y0 x1 y1 X Y"
  defines "coverage \<equiv> bresenhamLine_coverage x0 y0 x1 y1 thickness X Y"
  defines "out \<equiv> bresenhamLine img x0 y0 x1 y1 col thickness"
  shows "(dd \<le> thickness / 2 - 1 / 2 \<longrightarrow> coverage = 1)
    \<and> (thickness / 2 - 1 / 2 < dd \<and> dd \<le> thickness / 2 + 1 / 2
         \<longrightarrow> coverage = thickness / 2 + 1 / 2 - dd)
    \<and> (thickness / 2 + 1 / 2 < dd \<longrightarrow> coverage = 0)
    \<and> (1 / 1000 \<le> L
         \<and> real_of_int X + 1 / 2 = x0 + s * (x1 - x0) - e * ((y1 - y0) / L)
         \<and> real_of_int Y + 1 / 2 = y0 + s * (y1 - y0) + e * ((x1 - x0) / L) \<longrightarrow>
           \<bar>e\<bar> \<le> dd
         \<and> (0 \<le> s \<and> s \<le> 1 \<longrightarrow> dd = \<bar>e\<bar>)
         \<and> (s \<le> 0 \<longrightarrow>
               dd = sqrt ((real_of_int X + 1 / 2 - x0)\<^sup>2 + (real_of_int Y + 1 / 2 - y0)\<^sup>2))
         \<and> (1 \<le> s \<longrightarrow>
               dd = sqrt ((real_of_int X + 1 / 2 - x1)\<^sup>2 + (real_of_int Y + 1 / 2 - y1)\<^sup>2))
         \<and> (\<forall>u. 0 \<le> u \<and> u \<le> 1 \<longrightarrow>
               dd \<le> sqrt ((real_of_int X + 1 / 2 - (x0 + u * (x1 - x0)))\<^sup>2
                         + (real_of_int Y + 1 / 2 - (y0 + u * (y1 - y0)))\<^sup>2))
         \<and> (0 \<le> s \<and> s \<le> 1 \<and> e = 0 \<and> thickness = 4 \<longrightarrow> coverage = 1)
         \<and> (\<bar>e\<bar> = thickness / 2 + 1 \<longrightarrow> coverage = 0))
    \<and> (L < 1 / 1000 \<longrightarrow>
           dd = bresenhamLine_dist x0 y0 (x0 + 1) y0 X Y
         \<and> coverage = bresenhamLine_coverage x0 y0 (x0 + 1) y0 thickness X Y
         \<and> dd = sqrt ((real_of_int X + 1 / 2 - (x0 + max 0 (min 1 (real_of_int X + 1 / 2 - x0))))\<^sup>2
                  + (real_of_int Y + 1 / 2 - y0)\<^sup>2))
    \<and> (0 < coverage \<longrightarrow>
           \<lfloor>min x0 x1 - (thickness / 2 + 1.5)\<rfloor> \<le> X \<and> X < \<lceil>max x0 x1 + (thickness / 2 + 1.5)\<rceil>
         \<and> \<lfloor>min y0 y1 - (thickness / 2 + 1.5)\<rfloor> \<le> Y \<and> Y < \<lceil>max y0 y1 + (thickness / 2 + 1.5)\<rceil>)
    \<and> img_width out = img_width img \<and> img_height out = img_height img
    \<and> numberOfChannels out = numberOfChannels img
    \<and> (\<forall>c u v. c < numberOfChannels img \<and> u < img_width img \<and> v < img_height img \<longrightarrow>
          pixel out c u v
          = (if c < 3 \<and> 0 < bresenhamLine_coverage x0 y0 x1 y1 thickness (int u) (int v)
             then [col_r col, col_g col, col_b col] ! c
                    * (color_alpha col * bresenhamLine_coverage x0 y0 x1 y1 thickness (int u) (int v))
                  + pixel img c u v
                    * (1 - color_alpha col * bresenhamLine_coverage x0 y0 x1 y1 thickness (int u) (int v))
             else pixel img c u v))"
proof -
  have zones: "(dd \<le> thickness / 2 - 1 / 2 \<longrightarrow> coverage = 1)
    \<and> (thickness / 2 - 1 / 2 < dd \<and> dd \<le> thickness / 2 + 1 / 2
         \<longrightarrow> coverage = thickness / 2 + 1 / 2 - dd)
    \<and> (thickness / 2 + 1 / 2 < dd \<longrightarrow> coverage = 0)"
    by (simp add: coverage_def dd_def bresenhamLine_coverage_def Let_def)
  have geo: "\<bar>e\<bar> \<le> dd
         \<and> (0 \<le> s \<and> s \<le> 1 \<longrightarrow> dd = \<bar>e\<bar>)
         \<and> (s \<le> 0 \<longrightarrow>
               dd = sqrt ((real_of_int X + 1 / 2 - x0)\<^sup>2 + (real_of_int Y + 1 / 2 - y0)\<^sup>2))
         \<and> (1 \<le> s \<longrightarrow>
               dd = sqrt ((real_of_int X + 1 / 2 - x1)\<^sup>2 + (real_of_int Y + 1 / 2 - y1)\<^sup>2))
         \<and> (\<forall>u. 0 \<le> u \<and> u \<le> 1 \<longrightarrow>
               dd \<le> sqrt ((real_of_int X + 1 / 2 - (x0 + u * (x1 - x0)))\<^sup>2
                         + (real_of_int Y + 1 / 2 - (y0 + u * (y1 - y0)))\<^sup>2))
         \<and> (0 \<le> s \<and> s \<le> 1 \<and> e = 0 \<and> thickness = 4 \<longrightarrow> coverage = 1)
         \<and> (\<bar>e\<bar> = thickness / 2 + 1 \<longrightarrow> coverage = 0)"
    if h: "1 / 1000 \<le> L
         \<and> real_of_int X + 1 / 2 = x0 + s * (x1 - x0) - e * ((y1 - y0) / L)
         \<and> real_of_int Y + 1 / 2 = y0 + s * (y1 - y0) + e * ((x1 - x0) / L)"
  proof -
    from h have h': "1 / 1000 \<le> sqrt ((x1 - x0) * (x1 - x0) + (y1 - y0) * (y1 - y0))"
      "real_of_int X + 1 / 2 = x0 + s * (x1 - x0)
         - e * ((y1 - y0) / sqrt ((x1 - x0) * (x1 - x0) + (y1 - y0) * (y1 - y0)))"
      "real_of_int Y + 1 / 2 = y0 + s * (y1 - y0)
         + e * ((x1 - x0) / sqrt ((x1 - x0) * (x1 - x0) + (y1 - y0) * (y1 - y0)))"
      unfolding L_def by blast+
    note g = line_dist_geometry [OF h', folded dd_def]
    have c1: "coverage = 1" if "0 \<le> s \<and> s \<le> 1 \<and> e = 0 \<and> thickness = 4"
      using that g(2) zones by simp
    have c2: "coverage = 0" if "\<bar>e\<bar> = thickness / 2 + 1"
      using that g(1) zones by simp
    from g c1 c2 show ?thesis by blast
  qed
  have deg: "dd = bresenhamLine_dist x0 y0 (x0 + 1) y0 X Y
         \<and> coverage = bresenhamLine_coverage x0 y0 (x0 + 1) y0 thickness X Y
         \<and> dd = sqrt ((real_of_int X + 1 / 2 - (x0 + max 0 (min 1 (real_of_int X + 1 / 2 - x0))))\<^sup>2
                  + (real_of_int Y + 1 / 2 - y0)\<^sup>2)"
    if "L < 1 / 1000"
    using line_dist_degenerate [OF that [unfolded L_def], of X Y]
    by (simp add: dd_def coverage_def bresenhamLine_coverage_def)
  have box: "\<lfloor>min x0 x1 - (thickness / 2 + 1.5)\<rfloor> \<le> X \<and> X < \<lceil>max x0 x1 + (thickness / 2 + 1.5)\<rceil>
         \<and> \<lfloor>min y0 y1 - (thickness / 2 + 1.5)\<rfloor> \<le> Y \<and> Y < \<lceil>max y0 y1 + (thickness / 2 + 1.5)\<rceil>"
    if "0 < coverage"
    using that unfolding coverage_def by (rule coverage_in_box)
  have dims: "img_width out = img_width img \<and> img_height out = img_height img
    \<and> numberOfChannels out = numberOfChannels img"
    unfolding out_def by (rule bresenhamLine_dims)
  have drawn: "pixel out c u v
          = (if c < 3 \<and> 0 < bresenhamLine_coverage x0 y0 x1 y1 thickness (int u) (int v)
             then [col_r col, col_g col, col_b col] ! c
                    * (color_alpha col * bresenhamLine_coverage x0 y0 x1 y1 thickness (int u) (int v))
                  + pixel img c u v
                    * (1 - color_alpha col * bresenhamLine_coverage x0 y0 x1 y1 thickness (int u) (int v))
             else pixel img c u v)"
    if "c < numberOfChannels img \<and> u < img_width img \<and> v < img_height img" for c u v
    unfolding out_def using that by (intro bresenhamLine_drawn) simp_all
  from zones geo deg box dims drawn show ?thesis by blast
qed

theorem bresenhamLine_coverage_zones_witness:
  "bresenhamLine_coverage 0 (1 / 2) 10 (1 / 2) 4 5 0 = 1
   \<and> bresenhamLine_coverage 0 (1 / 2) 10 (1 / 2) 4 5 3 = 0
   \<and> bresenhamLine_dist 0 (1 / 2) 10 (1 / 2) 12 0 = 5 / 2
   \<and> bresenhamLine_coverage 0 (1 / 2) 10 (1 / 2) 5 12 0 = 1 / 2
   \<and> pixel (bresenhamLine img14 0 (1 / 2) 10 (1 / 2) white 5) 0 12 0 = 1 / 2
   \<and> bresenhamLine_dist 2 (1 / 2) 2 (1 / 2) 5 0 = 5 / 2
   \<and> bresenhamLine_coverage 2 (1 / 2) 2 (1 / 2) 1 2 0 = 1
   \<and> pixel (bresenhamLine img14 2 (1 / 2) 2 (1 / 2) white 1) 0 2 0 = 1
   \<and> bresenhamLine_coverage 2 (1 / 2) 2 (1 / 2) 1 5 0 = 0
   \<and> pixel (bresenhamLine img14 2 (1 / 2) 2 (1 / 2) white 1) 0 5 0 = 0"
proof -
  have s100: "sqrt 100 = (10::real)" using real_sqrt_abs2 [of "10::real"] by simp
  have s254: "sqrt (25 / 4) = (5 / 2::real)" using real_sqrt_abs2 [of "5 / 2::real"] by simp
  have L: "sqrt ((10 - 0) * (10 - 0) + (1 / 2 - 1 / 2) * (1 / 2 - 1 / 2)) = (10::real)"
    by (simp add: s100)
  have i: "(0::nat) < numberOfChannels img14" "(12::nat) < img_width img14" "(2::nat) < img_width img14"
    "(5::nat) < img_width img14" "(0::nat) < img_height img14"
    "pixel img14 0 12 0 = 0" "pixel img14 0 2 0 = 0" "pixel img14 0 5 0 = 0"
    by (simp_all add: img14_def numberOfChannels_def pixel_def)
  have w: "col_r white = 1" "color_alpha white = 1"
    by (simp_all add: white_def color_alpha_def)
  have a: "bresenhamLine_coverage 0 (1 / 2) 10 (1 / 2) 4 5 0 = 1"
    using bresenhamLine_coverage_zones [where ?x0.0 = 0 and ?y0.0 = "1 / 2" and ?x1.0 = 10
        and ?y1.0 = "1 / 2" and X = 5 and Y = 0 and thickness = 4 and s = "11 / 20" and e = 0]
    by (simp add: L)
  have b: "bresenhamLine_coverage 0 (1 / 2) 10 (1 / 2) 4 5 3 = 0"
    using bresenhamLine_coverage_zones [where ?x0.0 = 0 and ?y0.0 = "1 / 2" and ?x1.0 = 10
        and ?y1.0 = "1 / 2" and X = 5 and Y = 3 and thickness = 4 and s = "11 / 20" and e = 3]
    by (simp add: L)
  note t3 = bresenhamLine_coverage_zones [where ?x0.0 = 0 and ?y0.0 = "1 / 2" and ?x1.0 = 10
        and ?y1.0 = "1 / 2" and X = 12 and Y = 0 and thickness = 5 and s = "5 / 4" and e = 0
        and img = img14 and col = white]
  have d3: "bresenhamLine_dist 0 (1 / 2) 10 (1 / 2) 12 0 = 5 / 2"
    using t3 by (simp add: L power2_eq_square s254)
  have c3: "bresenhamLine_coverage 0 (1 / 2) 10 (1 / 2) 5 12 0 = 1 / 2"
    using t3 by (simp add: d3)
  from t3 i(1,2,5) have "pixel (bresenhamLine img14 0 (1 / 2) 10 (1 / 2) white 5) 0 12 0
      = (if (0::nat) < 3 \<and> 0 < bresenhamLine_coverage 0 (1 / 2) 10 (1 / 2) 5 (int 12) (int 0)
         then [col_r white, col_g white, col_b white] ! 0
                * (color_alpha white * bresenhamLine_coverage 0 (1 / 2) 10 (1 / 2) 5 (int 12) (int 0))
              + pixel img14 0 12 0
                * (1 - color_alpha white * bresenhamLine_coverage 0 (1 / 2) 10 (1 / 2) 5 (int 12) (int 0))
         else pixel img14 0 12 0)"
    by blast
  then have p3: "pixel (bresenhamLine img14 0 (1 / 2) 10 (1 / 2) white 5) 0 12 0 = 1 / 2"
    by (simp add: c3 w i(6))
  note t4 = bresenhamLine_coverage_zones [where ?x0.0 = 2 and ?y0.0 = "1 / 2" and ?x1.0 = 2
        and ?y1.0 = "1 / 2" and X = 2 and Y = 0 and thickness = 1 and img = img14 and col = white]
  have d4: "bresenhamLine_dist 2 (1 / 2) 2 (1 / 2) 2 0 = 0"
    using t4 by simp
  from t4 have "bresenhamLine_dist 2 (1 / 2) 2 (1 / 2) 2 0 \<le> 1 / 2 - 1 / 2
      \<longrightarrow> bresenhamLine_coverage 2 (1 / 2) 2 (1 / 2) 1 2 0 = 1"
    by (rule conjunct1)
  then have c4: "bresenhamLine_coverage 2 (1 / 2) 2 (1 / 2) 1 2 0 = 1"
    by (simp add: d4)
  from t4 i(1,3,5) have "pixel (bresenhamLine img14 2 (1 / 2) 2 (1 / 2) white 1) 0 2 0
      = (if (0::nat) < 3 \<and> 0 < bresenhamLine_coverage 2 (1 / 2) 2 (1 / 2) 1 (int 2) (int 0)
         then [col_r white, col_g white, col_b white] ! 0
                * (color_alpha white * bresenhamLine_coverage 2 (1 / 2) 2 (1 / 2) 1 (int 2) (int 0))
              + pixel img14 0 2 0
                * (1 - color_alpha white * bresenhamLine_coverage 2 (1 / 2) 2 (1 / 2) 1 (int 2) (int 0))
         else pixel img14 0 2 0)"
    by blast
  then have p4: "pixel (bresenhamLine img14 2 (1 / 2) 2 (1 / 2) white 1) 0 2 0 = 1"
    by (simp add: c4 w i(7))
  note t5 = bresenhamLine_coverage_zones [where ?x0.0 = 2 and ?y0.0 = "1 / 2" and ?x1.0 = 2
        and ?y1.0 = "1 / 2" and X = 5 and Y = 0 and thickness = 1 and img = img14 and col = white]
  have d5: "bresenhamLine_dist 2 (1 / 2) 2 (1 / 2) 5 0 = 5 / 2"
    using t5 by (simp add: power2_eq_square s254)
  from t5 have "1 / 2 + 1 / 2 < bresenhamLine_dist 2 (1 / 2) 2 (1 / 2) 5 0
      \<longrightarrow> bresenhamLine_coverage 2 (1 / 2) 2 (1 / 2) 1 5 0 = 0"
    by blast
  then have c5: "bresenhamLine_coverage 2 (1 / 2) 2 (1 / 2) 1 5 0 = 0"
    by (simp add: d5)
  from t5 i(1,4,5) have "pixel (bresenhamLine img14 2 (1 / 2) 2 (1 / 2) white 1) 0 5 0
      = (if (0::nat) < 3 \<and> 0 < bresenhamLine_coverage 2 (1 / 2) 2 (1 / 2) 1 (int 5) (int 0)
         then [col_r white, col_g white, col_b white] ! 0
                * (color_alpha white * bresenhamLine_coverage 2 (1 / 2) 2 (1 / 2) 1 (int 5) (int 0))
              + pixel img14 0 5 0
                * (1 - color_alpha white * bresenhamLine_coverage 2 (1 / 2) 2 (1 / 2) 1 (int 5) (int 0))
         else pixel img14 0 5 0)"
    by blast
  then have p5: "pixel (bresenhamLine img14 2 (1 / 2) 2 (1 / 2) white 1) 0 5 0 = 0"
    by (simp add: c5 i(8))
  from a b d3 c3 p3 d5 c4 p4 c5 p5 show ?thesis by simp
qed

end
